theory Spec2Isabelle
  imports Complex_Main "HOL-Library.Multiset" "HOL-Library.Product_Lexorder"
begin

section \<open>JavaScript numbers\<close>

text \<open>
  The service computes with JavaScript numbers, which are IEEE 754 doubles. A finite
  double is kept as the rational it denotes (\<open>Fin 0\<close> is \<open>+0\<close>, \<open>NZero\<close> is \<open>-0\<close>);
  every arithmetic operation computes the exact rational result and rounds it to the
  nearest double, ties to the even significand, as the language prescribes.
\<close>

datatype jsnum = NaN | NInf | NZero | Fin rat | PInf

fun bitlen :: "nat \<Rightarrow> nat" where
  "bitlen n = (if n = 0 then 0 else Suc (bitlen (n div 2)))"

declare bitlen.simps [simp del]

definition ilog2 :: "rat \<Rightarrow> int" where
  \<comment> \<open>\<open>\<lfloor>log\<^sub>2 x\<rfloor>\<close> for \<open>x > 0\<close>\<close>
  "ilog2 x = (if 1 \<le> x then int (bitlen (nat \<lfloor>x\<rfloor>)) - 1
              else - int (bitlen (nat \<lceil>1 / x\<rceil> - 1)))"

definition pow2 :: "int \<Rightarrow> rat" where
  "pow2 k = (if 0 \<le> k then 2 ^ nat k else 1 / 2 ^ nat (- k))"

definition round_half_even :: "rat \<Rightarrow> int" where
  "round_half_even q =
     (let f = \<lfloor>q\<rfloor>; d = q - of_int f
      in if d < 1 / 2 then f else if 1 / 2 < d then f + 1
         else if even f then f else f + 1)"

definition fl :: "rat \<Rightarrow> jsnum" where
  \<comment> \<open>round to nearest double: 53-bit significand, exponents from \<open>-1022\<close> (subnormals
      below), overflow to an infinity at \<open>2\<^sup>1\<^sup>0\<^sup>2\<^sup>4\<close>\<close>
  "fl x =
     (if x = 0 then Fin 0
      else let a = \<bar>x\<bar>;
               e = max (ilog2 a) (- 1022);
               u = pow2 (e - 52);
               m = round_half_even (a / u)
           in if pow2 1024 \<le> of_int m * u then (if x < 0 then NInf else PInf)
              else if m = 0 then (if x < 0 then NZero else Fin 0)
              else Fin (sgn x * of_int m * u))"

definition num_val :: "jsnum \<Rightarrow> rat" where
  "num_val x = (case x of Fin q \<Rightarrow> q | _ \<Rightarrow> 0)"

definition is_zero :: "jsnum \<Rightarrow> bool" where
  "is_zero x = (x = NZero \<or> x = Fin 0)"

definition is_inf :: "jsnum \<Rightarrow> bool" where
  "is_inf x = (x = NInf \<or> x = PInf)"

definition negative :: "jsnum \<Rightarrow> bool" where
  \<comment> \<open>the sign bit\<close>
  "negative x = (case x of NInf \<Rightarrow> True | NZero \<Rightarrow> True | Fin q \<Rightarrow> q < 0 | _ \<Rightarrow> False)"

definition js_div :: "jsnum \<Rightarrow> jsnum \<Rightarrow> jsnum" where
  \<comment> \<open>\<open>a / b\<close>\<close>
  "js_div a b =
     (let neg = (negative a \<noteq> negative b)
      in if a = NaN \<or> b = NaN then NaN
         else if is_inf a then (if is_inf b then NaN else if neg then NInf else PInf)
         else if is_inf b then (if neg then NZero else Fin 0)
         else if is_zero b then (if is_zero a then NaN else if neg then NInf else PInf)
         else if is_zero a then (if neg then NZero else Fin 0)
         else fl (num_val a / num_val b))"

definition js_add :: "jsnum \<Rightarrow> jsnum \<Rightarrow> jsnum" where
  \<comment> \<open>\<open>a + b\<close> on numbers\<close>
  "js_add a b =
     (if a = NaN \<or> b = NaN then NaN
      else if a = PInf then (if b = NInf then NaN else PInf)
      else if a = NInf then (if b = PInf then NaN else NInf)
      else if is_inf b then b
      else if a = NZero \<and> b = NZero then NZero
      else if num_val a + num_val b = 0 then Fin 0
      else fl (num_val a + num_val b))"

definition js_mul300 :: "jsnum \<Rightarrow> jsnum" where
  \<comment> \<open>\<open>300 * x\<close>\<close>
  "js_mul300 x = (case x of Fin q \<Rightarrow> fl (300 * q) | _ \<Rightarrow> x)"

definition num_key :: "jsnum \<Rightarrow> int \<times> rat \<times> int" where
  \<comment> \<open>position in the order that \<open>Math.min\<close> uses, where \<open>-0\<close> is below \<open>+0\<close>\<close>
  "num_key x = (case x of NInf \<Rightarrow> (0, 0, 0) | NZero \<Rightarrow> (1, 0, 0) | Fin q \<Rightarrow> (1, q, 1)
                | PInf \<Rightarrow> (2, 0, 0) | NaN \<Rightarrow> (3, 0, 0))"

definition Math_min :: "jsnum list \<Rightarrow> jsnum" where
  \<comment> \<open>\<open>Math.min(...xs)\<close>: \<open>NaN\<close> if an argument is, \<open>+Infinity\<close> without arguments\<close>
  "Math_min xs =
     (if NaN \<in> set xs then NaN
      else foldl (\<lambda>lowest x. if num_key x < num_key lowest then x else lowest) PInf xs)"

definition strict_eq :: "jsnum \<Rightarrow> jsnum \<Rightarrow> bool" where
  \<comment> \<open>\<open>a === b\<close> on numbers\<close>
  "strict_eq a b = (a \<noteq> NaN \<and> b \<noteq> NaN \<and> (a = b \<or> (is_zero a \<and> is_zero b)))"

fun indexOf :: "jsnum list \<Rightarrow> jsnum \<Rightarrow> nat option" where
  \<comment> \<open>\<open>xs.indexOf(v)\<close>; \<open>None\<close> is the result \<open>-1\<close>\<close>
  "indexOf [] v = None"
| "indexOf (x # xs) v = (if strict_eq x v then Some 0 else map_option Suc (indexOf xs v))"


section \<open>Values, photos and the client state\<close>

text \<open>
  A value as \<open>JSON.parse\<close> produces it, and \<open>undefined\<close>, which property reads
  produce. An object is the list of its own properties.
\<close>

datatype jsval =
    JUndefined | JNull | JBool bool | JNum jsnum | JStr string
  | JArr "jsval list" | JObj "(string \<times> jsval) list"

text \<open>
  A photo of the flat list and of the columns: the object of the response, and the
  \<open>ratio\<close> property that \<open>_addPhoto\<close> writes on it.
\<close>

record photo =
  source :: jsval
  ratio :: jsnum

record request =
  url :: string
  authorization :: string
  accept_version :: string

text \<open>
  The state of the \<open>_search\<close> task (restartable): idle, suspended in the debounce
  \<open>timeout\<close> with a number of milliseconds left, or waiting for the response.
\<close>

datatype search_phase = Idle | Debouncing string nat | Requesting string

text \<open>
  How a promise settles, and the state of a task instance, the object that \<open>perform\<close>
  returns: it runs, it has finished with the outcome of its task function (resolved
  with the value the function returned, rejected with the error it threw), or it was
  cancelled. A caller that waits for an instance gets that outcome when it has
  finished, and the rejection with a cancellation when it was cancelled.
\<close>

datatype settled = Resolved | Rejected

datatype instance_state = Running | Finished settled | Cancelled

text \<open>
  The fields of the service. \<open>columnHeights\<close>, \<open>pagination\<close> and
  \<open>lastRequestUrl\<close> are the source's \<open>_columnHeights\<close>, \<open>_pagination\<close> and
  \<open>_lastRequestUrl\<close>; \<open>search_task\<close> and \<open>loadingTasks_running\<close> are the state
  of the \<open>_search\<close> task and of the \<open>_loadingTasks\<close> group; \<open>requests\<close> records
  every call of \<open>fetch\<close>, oldest first. \<open>task_instances\<close> holds the state of every
  task instance that \<open>perform\<close> has created, oldest first, so that an instance is
  known by its position; \<open>loading_instance\<close> and \<open>search_instance\<close> are the
  positions of the instance of the group and of \<open>_search\<close> that runs, if one does.
\<close>

record state =
  columnCount :: int
  columns :: "photo list list"
  error :: jsval
  photos :: "photo list"
  searchTerm :: string
  columnHeights :: "jsnum list"
  pagination :: "string \<rightharpoonup> string"
  lastRequestUrl :: "string option"
  applicationId :: string
  search_task :: search_phase
  loadingTasks_running :: bool
  requests :: "request list"
  task_instances :: "instance_state list"
  loading_instance :: nat
  search_instance :: nat

text \<open>How a synchronous piece of code ends: normally, or by throwing.\<close>

datatype completion = Normal | Thrown

section \<open>The column layout\<close>

definition addPhotoToColumns :: "photo \<Rightarrow> state \<Rightarrow> completion \<times> state" where
  \<comment> \<open>\<open>_addPhotoToColumns\<close>. With \<open>columnIndex = -1\<close> the height written is not an
      element of the array and \<open>columns[-1]\<close> is \<open>undefined\<close>, so \<open>pushObject\<close>
      throws; with an index beyond the columns the height is written before the throw.\<close>
  "addPhotoToColumns p s =
     (let min = Math_min (columnHeights s)
      in case indexOf (columnHeights s) min of
           None \<Rightarrow> (Thrown, s)
         | Some columnIndex \<Rightarrow>
             (let s' = s\<lparr>columnHeights := (columnHeights s)
                          [columnIndex := js_add (columnHeights s ! columnIndex)
                                                 (js_mul300 (ratio p))]\<rparr>
              in if columnIndex < length (columns s)
                 then (Normal, s'\<lparr>columns := (columns s)
                                   [columnIndex := columns s ! columnIndex @ [p]]\<rparr>)
                 else (Thrown, s')))"

fun forEach_addPhotoToColumns :: "photo list \<Rightarrow> state \<Rightarrow> completion \<times> state" where
  \<comment> \<open>\<open>photos.forEach((photo) => this._addPhotoToColumns(photo))\<close>: a throw ends it\<close>
  "forEach_addPhotoToColumns [] s = (Normal, s)"
| "forEach_addPhotoToColumns (p # ps) s =
     (case addPhotoToColumns p s of
        (Normal, s') \<Rightarrow> forEach_addPhotoToColumns ps s'
      | (Thrown, s') \<Rightarrow> (Thrown, s'))"

definition resetColumns :: "state \<Rightarrow> completion \<times> state" where
  \<comment> \<open>\<open>_resetColumns\<close>: the loop fills \<open>columnCount\<close> columns, none when it is not
      positive\<close>
  "resetColumns s =
     (let n = nat (columnCount s);
          s' = s\<lparr>columns := replicate n [], columnHeights := replicate n (Fin 0)\<rparr>
      in if photos s' \<noteq> [] then forEach_addPhotoToColumns (photos s') s'
         else (Normal, s'))"

definition reset :: "state \<Rightarrow> completion \<times> state" where
  \<comment> \<open>\<open>_reset\<close>\<close>
  "reset s = resetColumns (s\<lparr>photos := [], pagination := Map.empty\<rparr>)"


text \<open>
  The height that a photo adds to its column, and the quantities of the balancing
  property: the distance between the highest and the lowest column, the height of the
  highest column, and the largest height added by one photo, all as exact numbers.
\<close>

definition contribution :: "photo \<Rightarrow> jsnum" where
  "contribution p = js_mul300 (ratio p)"

definition spread :: "jsnum list \<Rightarrow> rat" where
  "spread hs = Max (set (map num_val hs)) - Min (set (map num_val hs))"

definition highest :: "jsnum list \<Rightarrow> rat" where
  "highest hs = Max (set (map num_val hs))"

definition largest_contribution :: "photo list \<Rightarrow> rat" where
  "largest_contribution ps = Max (set (map (\<lambda>p. num_val (contribution p)) ps))"

definition positive_finite :: "jsnum \<Rightarrow> bool" where
  "positive_finite x = (case x of Fin q \<Rightarrow> 0 < q | _ \<Rightarrow> False)"

definition empty_columns :: "nat \<Rightarrow> state \<Rightarrow> state" where
  \<comment> \<open>\<open>n\<close> empty columns, all heights zero\<close>
  "empty_columns n s = s\<lparr>columns := replicate n [], columnHeights := replicate n (Fin 0)\<rparr>"

text \<open>
  The comparison \<open>a < b\<close> of the language, the numbers that are not negative, and
  the invariant of the layout: there is a column, every column has its height, no
  height is \<open>NaN\<close>, and the columns together hold exactly the photos of the flat
  list, each occurrence once.
\<close>

definition js_less :: "jsnum \<Rightarrow> jsnum \<Rightarrow> bool" where
  "js_less a b = (a \<noteq> NaN \<and> b \<noteq> NaN \<and>
      (fst (num_key a), fst (snd (num_key a))) < (fst (num_key b), fst (snd (num_key b))))"

definition nonneg :: "jsnum \<Rightarrow> bool" where
  "nonneg x = (case x of Fin q \<Rightarrow> 0 \<le> q | PInf \<Rightarrow> True | NZero \<Rightarrow> True | _ \<Rightarrow> False)"

definition balanced :: "state \<Rightarrow> bool" where
  "balanced s = (columns s \<noteq> [] \<and> length (columnHeights s) = length (columns s)
      \<and> NaN \<notin> set (columnHeights s)
      \<and> mset (concat (columns s)) = mset (photos s))"


section \<open>Reading a response\<close>

definition truthy :: "jsval \<Rightarrow> bool" where
  "truthy v = (case v of JUndefined \<Rightarrow> False | JNull \<Rightarrow> False | JBool b \<Rightarrow> b
               | JNum n \<Rightarrow> n \<noteq> NaN \<and> \<not> is_zero n | JStr s \<Rightarrow> s \<noteq> [] | _ \<Rightarrow> True)"

definition get_prop :: "jsval \<Rightarrow> string \<Rightarrow> jsval option" where
  \<comment> \<open>\<open>v.name\<close> for the names the service reads (\<open>results\<close>, \<open>errors\<close>,
      \<open>height\<close>, \<open>width\<close>), none of which is inherited; \<open>None\<close> is the TypeError
      of reading a property of \<open>null\<close> or \<open>undefined\<close>\<close>
  "get_prop v name =
     (case v of JUndefined \<Rightarrow> None | JNull \<Rightarrow> None
      | JObj kvs \<Rightarrow> Some (case map_of kvs name of None \<Rightarrow> JUndefined | Some x \<Rightarrow> x)
      | _ \<Rightarrow> Some JUndefined)"

definition index0 :: "jsval \<Rightarrow> jsval option" where
  \<comment> \<open>\<open>v[0]\<close>\<close>
  "index0 v =
     (case v of JUndefined \<Rightarrow> None | JNull \<Rightarrow> None
      | JArr xs \<Rightarrow> Some (case xs of [] \<Rightarrow> JUndefined | x # _ \<Rightarrow> x)
      | JStr cs \<Rightarrow> Some (case cs of [] \<Rightarrow> JUndefined | c # _ \<Rightarrow> JStr [c])
      | JObj kvs \<Rightarrow> Some (case map_of kvs ''0'' of None \<Rightarrow> JUndefined | Some x \<Rightarrow> x)
      | _ \<Rightarrow> Some JUndefined)"

definition to_number :: "(jsval \<Rightarrow> jsnum option) \<Rightarrow> jsval \<Rightarrow> jsnum option" where
  \<comment> \<open>the conversion that \<open>/\<close> applies to its operands. The conversion of strings,
      arrays and objects is the parameter \<open>cv\<close>; \<open>None\<close> is a conversion that throws.\<close>
  "to_number cv v =
     (case v of JUndefined \<Rightarrow> Some NaN | JNull \<Rightarrow> Some (Fin 0)
      | JBool b \<Rightarrow> Some (Fin (if b then 1 else 0)) | JNum n \<Rightarrow> Some n
      | _ \<Rightarrow> cv v)"

definition ratio_of :: "(jsval \<Rightarrow> jsnum option) \<Rightarrow> jsval \<Rightarrow> jsnum option" where
  \<comment> \<open>\<open>photo.ratio = photo.height / photo.width\<close>: \<open>None\<close> when the statement throws,
      as it does on \<open>null\<close> and, the module being strict code, on a primitive value\<close>
  "ratio_of cv photo =
     (case photo of
        JObj kvs \<Rightarrow>
          Option.bind (get_prop photo ''height'') (\<lambda>h. Option.bind (get_prop photo ''width'') (\<lambda>w.
          Option.bind (to_number cv h) (\<lambda>hn. Option.bind (to_number cv w) (\<lambda>wn.
            Some (js_div hn wn)))))
      | JArr xs \<Rightarrow>
          Option.bind (get_prop photo ''height'') (\<lambda>h. Option.bind (get_prop photo ''width'') (\<lambda>w.
          Option.bind (to_number cv h) (\<lambda>hn. Option.bind (to_number cv w) (\<lambda>wn.
            Some (js_div hn wn)))))
      | _ \<Rightarrow> None)"

definition addPhoto :: "(jsval \<Rightarrow> jsnum option) \<Rightarrow> jsval \<Rightarrow> state \<Rightarrow> completion \<times> state" where
  \<comment> \<open>\<open>_addPhoto\<close>\<close>
  "addPhoto cv photo s =
     (case ratio_of cv photo of
        None \<Rightarrow> (Thrown, s)
      | Some r \<Rightarrow>
          addPhotoToColumns \<lparr>source = photo, ratio = r\<rparr>
            (s\<lparr>photos := photos s @ [\<lparr>source = photo, ratio = r\<rparr>]\<rparr>))"

fun forEach_addPhoto :: "(jsval \<Rightarrow> jsnum option) \<Rightarrow> jsval list \<Rightarrow> state \<Rightarrow> completion \<times> state" where
  \<comment> \<open>\<open>photos.forEach((photo) => this._addPhoto(photo))\<close>\<close>
  "forEach_addPhoto cv [] s = (Normal, s)"
| "forEach_addPhoto cv (x # xs) s =
     (case addPhoto cv x s of
        (Normal, s') \<Rightarrow> forEach_addPhoto cv xs s'
      | (Thrown, s') \<Rightarrow> (Thrown, s'))"

definition addPhotosFromResponse :: "(jsval \<Rightarrow> jsnum option) \<Rightarrow> jsval \<Rightarrow> state \<Rightarrow> completion \<times> state" where
  \<comment> \<open>\<open>_addPhotosFromResponse\<close>: only an array has \<open>forEach\<close>\<close>
  "addPhotosFromResponse cv response s =
     (case get_prop response ''results'' of
        None \<Rightarrow> (Thrown, s)
      | Some results \<Rightarrow>
          (case (if truthy results then results else response) of
             JArr xs \<Rightarrow> forEach_addPhoto cv xs s
           | _ \<Rightarrow> (Thrown, s)))"

text \<open>
  A response as the service reads it: the status, the header map of the \<open>fetch\<close>
  polyfill (\<open>response.headers.map\<close>, names in lower case), the body as text
  (\<open>response.text()\<close>) and as parsed by \<open>response.json()\<close>, \<open>None\<close> when the body is
  not JSON and the promise rejects. \<open>fetch\<close> itself rejects when no response arrives.
\<close>

record response =
  status :: nat
  headers :: "string \<rightharpoonup> string"
  body_text :: string
  body_json :: "jsval option"

datatype fetch_result = NetworkFailure | Response response

definition API_URL :: string where
  "API_URL = ''https://api.unsplash.com''"

definition API_VERSION :: string where
  "API_VERSION = ''v1''"

definition DEBOUNCE_MS :: nat where
  "DEBOUNCE_MS = 600"

definition rate_limit_message :: string where
  "rate_limit_message = ''Unsplash API rate limit reached, please try again later.''"

definition connection_message :: string where
  "connection_message = ''Uh-oh! Trouble reaching the Unsplash API, please check your connection''"

definition digit :: "nat \<Rightarrow> char" where
  "digit d = char_of (48 + d)"

fun decimal :: "nat \<Rightarrow> string \<Rightarrow> string" where
  \<comment> \<open>the decimal digits of \<open>n\<close>, put before \<open>rest\<close>\<close>
  "decimal n rest =
     (if n < 10 then digit n # rest else decimal (n div 10) (digit (n mod 10) # rest))"

declare decimal.simps [simp del]

definition status_message :: "nat \<Rightarrow> string" where
  \<comment> \<open>the text \<open>Error\<close>, the status and the fixed rest of the message\<close>
  "status_message n = ''Error '' @ decimal n '': Uh-oh! Trouble reaching the Unsplash API''"

definition checkStatus :: "response \<Rightarrow> state \<Rightarrow> settled \<times> state" where
  \<comment> \<open>\<open>_checkStatus\<close>: the promise it returns, and the state it leaves\<close>
  "checkStatus r s =
     (if 200 \<le> status r \<and> status r < 300 then (Resolved, s)
      else
        (case (if headers r ''content-type'' = Some ''application/json''
               then Option.bind (body_json r) (\<lambda>json.
                    Option.bind (get_prop json ''errors'') index0)
               else if headers r ''content-type'' = Some ''text/xml''
               then Some (JStr (body_text r))
               else Some JUndefined) of
           None \<Rightarrow> (Rejected, s)
         | Some responseText \<Rightarrow>
             (let errorText =
                    (if status r = 403 \<and> headers r ''x-ratelimit-remaining'' = Some ''0''
                     then JStr rate_limit_message else JStr '''');
                  errorText =
                    (if truthy errorText then errorText
                     else if truthy responseText then responseText
                     else JStr (status_message (status r)))
              in (Rejected, s\<lparr>error := errorText\<rparr>))))"

section \<open>The Link header\<close>

definition line_terminator :: "char \<Rightarrow> bool" where
  \<comment> \<open>the characters that \<open>.\<close> does not match, among the 256 of a header value\<close>
  "line_terminator c = (c = CHR 0x0A \<or> c = CHR 0x0D)"

definition rel_opening :: string where
  \<comment> \<open>the text of the pattern between its two groups\<close>
  "rel_opening = ''>; rel='' @ [CHR 0x22]"

definition match_rel :: "string \<Rightarrow> string option" where
  \<comment> \<open>the second group and the closing quote: the longest run of characters of the
      line that a quote follows\<close>
  "match_rel cs =
     (let line = takeWhile (\<lambda>c. \<not> line_terminator c) cs
      in if CHR 0x22 \<in> set line
         then Some (rev (tl (dropWhile (\<lambda>c. c \<noteq> CHR 0x22) (rev line))))
         else None)"

fun match_url :: "string \<Rightarrow> (string \<times> string) option" where
  \<comment> \<open>the first group and all that follows it: the group takes one more character
      whenever the rest of the pattern still matches after it, and ends here otherwise\<close>
  "match_url [] = None"
| "match_url (c # cs) =
     (case (if line_terminator c then None
            else map_option (\<lambda>(u, rel). (c # u, rel)) (match_url cs)) of
        Some found \<Rightarrow> Some found
      | None \<Rightarrow>
          (if take (length rel_opening) (c # cs) = rel_opening
           then map_option (\<lambda>rel. ([], rel)) (match_rel (drop (length rel_opening) (c # cs)))
           else None))"

fun linkRegex_exec :: "string \<Rightarrow> (string \<times> string) option" where
  \<comment> \<open>\<open>linkRegex.exec(link)\<close> for the pattern \<open><(.*)>; rel="(.*)"\<close>: the groups of
      the match that starts leftmost, \<open>None\<close> for the result \<open>null\<close>\<close>
  "linkRegex_exec [] = None"
| "linkRegex_exec (c # cs) =
     (case (if c = CHR ''<'' then match_url cs else None) of
        Some found \<Rightarrow> Some found
      | None \<Rightarrow> linkRegex_exec cs)"

fun split_comma :: "string \<Rightarrow> string list" where
  \<comment> \<open>\<open>link.split(',')\<close>\<close>
  "split_comma [] = [[]]"
| "split_comma (c # cs) =
     (if c = CHR '','' then [] # split_comma cs
      else (case split_comma cs of [] \<Rightarrow> [[c]] | x # xs \<Rightarrow> (c # x) # xs))"

fun link_entries :: "string list \<Rightarrow> (string \<rightharpoonup> string) \<Rightarrow> (string \<rightharpoonup> string) option" where
  \<comment> \<open>the body of \<open>forEach\<close> over the entries: destructuring \<open>null\<close> throws (\<open>None\<close>);
      assigning a string to \<open>__proto__\<close> creates no property\<close>
  "link_entries [] pagination' = Some pagination'"
| "link_entries (link # links) pagination' =
     (case linkRegex_exec link of
        None \<Rightarrow> None
      | Some (target, rel) \<Rightarrow>
          link_entries links (if rel = ''__proto__'' then pagination' else pagination'(rel \<mapsto> target)))"

definition extractPagination :: "response \<Rightarrow> state \<Rightarrow> completion \<times> state" where
  \<comment> \<open>\<open>_extractPagination\<close>\<close>
  "extractPagination r s =
     (case headers r ''link'' of
        None \<Rightarrow> (Normal, s\<lparr>pagination := Map.empty\<rparr>)
      | Some link \<Rightarrow>
          (if link \<noteq> []
           then (case link_entries (split_comma link) Map.empty of
                   None \<Rightarrow> (Thrown, s)
                 | Some pagination' \<Rightarrow> (Normal, s\<lparr>pagination := pagination'\<rparr>))
           else (Normal, s\<lparr>pagination := Map.empty\<rparr>)))"

section \<open>Requests\<close>

text \<open>
  \<open>_makeRequest\<close> in two parts: what it does before \<open>fetch\<close> answers, and the chain
  of \<open>then\<close> handlers with the final \<open>catch\<close>, run on the answer as one step.
  The url is \<open>None\<close> when the caller passes \<open>undefined\<close>, which \<open>fetch\<close> requests
  as the text \<open>undefined\<close>.
\<close>

definition url_text :: "string option \<Rightarrow> string" where
  "url_text u = (case u of None \<Rightarrow> ''undefined'' | Some text \<Rightarrow> text)"

definition makeRequest_send :: "string option \<Rightarrow> state \<Rightarrow> state" where
  "makeRequest_send u s =
     s\<lparr>error := JStr '''', lastRequestUrl := u,
       requests := requests s @
         [\<lparr>url = url_text u, authorization = ''Client-ID '' @ applicationId s,
           accept_version = API_VERSION\<rparr>]\<rparr>"

definition request_chain :: "(jsval \<Rightarrow> jsnum option) \<Rightarrow> fetch_result \<Rightarrow> state \<Rightarrow> settled \<times> state" where
  \<comment> \<open>the four \<open>then\<close> handlers; the first rejection skips the rest\<close>
  "request_chain cv result s =
     (case result of
        NetworkFailure \<Rightarrow> (Rejected, s)
      | Response r \<Rightarrow>
          (case checkStatus r s of
             (Rejected, s1) \<Rightarrow> (Rejected, s1)
           | (Resolved, s1) \<Rightarrow>
               (case extractPagination r s1 of
                  (Thrown, s2) \<Rightarrow> (Rejected, s2)
                | (Normal, s2) \<Rightarrow>
                    (case body_json r of
                       None \<Rightarrow> (Rejected, s2)
                     | Some json \<Rightarrow>
                         (case addPhotosFromResponse cv json s2 of
                            (Thrown, s3) \<Rightarrow> (Rejected, s3)
                          | (Normal, s3) \<Rightarrow> (Resolved, s3))))))"

definition makeRequest_settle :: "(jsval \<Rightarrow> jsnum option) \<Rightarrow> fetch_result \<Rightarrow> state \<Rightarrow> settled \<times> state" where
  \<comment> \<open>the chain with its \<open>catch\<close>, which turns a rejection into a resolved promise\<close>
  "makeRequest_settle cv result s =
     (case request_chain cv result s of
        (Resolved, s') \<Rightarrow> (Resolved, s')
      | (Rejected, s') \<Rightarrow>
          (Resolved, if \<not> truthy (error s') then s'\<lparr>error := JStr connection_message\<rparr> else s'))"

section \<open>Tasks and public operations\<close>

text \<open>
  What a public operation returns at once: nothing, the task instance it performed,
  as its position in \<open>task_instances\<close>, or a rejected promise.
\<close>

datatype returned = Nothing | Task_instance nat | Promise_rejected



text \<open>
  A task of the group \<open>_loadingTasks\<close> that is performed while a task of the group
  runs is dropped: its instance is cancelled before it starts. Otherwise the instance
  runs its task function up to the \<open>yield\<close> of the promise of \<open>_makeRequest\<close>. When
  the request is answered the promise settles; the function returns if it resolved,
  and would throw if it rejected, and the instance finishes with that outcome.
\<close>

definition perform_dropped :: "state \<Rightarrow> returned \<times> state" where
  "perform_dropped s =
     (Task_instance (length (task_instances s)),
      s\<lparr>task_instances := task_instances s @ [Cancelled]\<rparr>)"

definition perform_loading :: "string option \<Rightarrow> state \<Rightarrow> returned \<times> state" where
  "perform_loading u s =
     (Task_instance (length (task_instances s)),
      (makeRequest_send u s)
        \<lparr>loadingTasks_running := True, loading_instance := length (task_instances s),
         task_instances := task_instances s @ [Running]\<rparr>)"

definition loadNew_perform :: "state \<Rightarrow> returned \<times> state" where
  \<comment> \<open>\<open>this.get('_loadNew').perform()\<close>\<close>
  "loadNew_perform s =
     (if loadingTasks_running s then perform_dropped s
      else perform_loading (Some (API_URL @ ''/photos?per_page=30'')) s)"

definition loadNextPage_perform :: "state \<Rightarrow> returned \<times> state" where
  \<comment> \<open>\<open>this.get('_loadNextPage').perform()\<close>\<close>
  "loadNextPage_perform s =
     (if loadingTasks_running s then perform_dropped s
      else perform_loading (pagination s ''next'') s)"

definition retryLastRequest_perform :: "state \<Rightarrow> returned \<times> state" where
  \<comment> \<open>\<open>this.get('_retryLastRequest').perform()\<close>\<close>
  "retryLastRequest_perform s =
     (if loadingTasks_running s then perform_dropped s
      else perform_loading (lastRequestUrl s) s)"

definition loading_settle :: "(jsval \<Rightarrow> jsnum option) \<Rightarrow> fetch_result \<Rightarrow> state \<Rightarrow> settled \<times> state" where
  \<comment> \<open>the answer to the request of the running loading task, which then ends\<close>
  "loading_settle cv result s =
     (case makeRequest_settle cv result s of
        (outcome, s') \<Rightarrow>
          (outcome,
           s'\<lparr>loadingTasks_running := False,
              task_instances := (task_instances s')[loading_instance s' := Finished outcome]\<rparr>))"

text \<open>
  \<open>_search\<close> is restartable: performing it cancels its running instance, if there is
  one, and the new instance starts its \<open>timeout\<close>. The request of a search that is
  cancelled while it waits for its answer is not followed further.
\<close>

definition search_perform :: "string \<Rightarrow> state \<Rightarrow> returned \<times> state" where
  \<comment> \<open>\<open>this.get('_search').perform(term)\<close>\<close>
  "search_perform term s =
     (Task_instance (length (task_instances s)),
      s\<lparr>search_task := Debouncing term DEBOUNCE_MS,
        search_instance := length (task_instances s),
        task_instances :=
          (if search_task s = Idle then task_instances s
           else (task_instances s)[search_instance s := Cancelled]) @ [Running]\<rparr>)"

definition elapse :: "nat \<Rightarrow> state \<Rightarrow> state" where
  \<comment> \<open>\<open>ms\<close> milliseconds pass without a call or an answer: a \<open>timeout\<close> that ends
      within them lets \<open>_search\<close> send its request\<close>
  "elapse ms s =
     (case search_task s of
        Debouncing term left \<Rightarrow>
          (if ms < left then s\<lparr>search_task := Debouncing term (left - ms)\<rparr>
           else (makeRequest_send
                   (Some (API_URL @ ''/search/photos?query='' @ term @ ''&per_page=30'')) s)
                  \<lparr>search_task := Requesting term\<rparr>)
      | _ \<Rightarrow> s)"


definition init :: "string \<Rightarrow> state" where
  \<comment> \<open>the service after \<open>init\<close>, for a configured application id\<close>
  "init appId =
     snd (reset \<lparr>columnCount = 3, columns = [], error = JStr '''', photos = [],
                 searchTerm = '''', columnHeights = [], pagination = Map.empty,
                 lastRequestUrl = None, applicationId = appId, search_task = Idle,
                 loadingTasks_running = False, requests = [], task_instances = [],
                 loading_instance = 0, search_instance = 0\<rparr>)"

definition loadNew :: "state \<Rightarrow> returned \<times> state" where
  "loadNew s = loadNew_perform (snd (reset s))"

definition loadNextPage :: "state \<Rightarrow> returned \<times> state" where
  "loadNextPage s =
     (if search_task s \<noteq> Idle then (Nothing, s)
      else if photos s = [] then loadNew_perform s
      else if (case pagination s ''next'' of None \<Rightarrow> False | Some next \<Rightarrow> next \<noteq> [])
      then loadNextPage_perform s
      else (Promise_rejected, s))"

definition updateSearch :: "string \<Rightarrow> state \<Rightarrow> returned \<times> state" where
  "updateSearch term s =
     (if term = searchTerm s then (Nothing, s)
      else (let s' = snd (reset (s\<lparr>searchTerm := term\<rparr>))
            in if term \<noteq> [] then search_perform term s' else loadNew_perform s'))"

definition sendTestRequest_send :: "string \<Rightarrow> state \<Rightarrow> state" where
  \<comment> \<open>\<open>sendTestRequest\<close> up to its \<open>fetch\<close>\<close>
  "sendTestRequest_send testApplicationId s =
     s\<lparr>requests := requests s @
         [\<lparr>url = API_URL @ ''/photos/random'',
           authorization = ''Client-ID '' @ testApplicationId,
           accept_version = API_VERSION\<rparr>]\<rparr>"

definition sendTestRequest_settle :: "fetch_result \<Rightarrow> state \<Rightarrow> settled \<times> state" where
  \<comment> \<open>the promise that \<open>sendTestRequest\<close> returned, once \<open>fetch\<close> has answered\<close>
  "sendTestRequest_settle result s =
     (case result of NetworkFailure \<Rightarrow> (Rejected, s) | Response r \<Rightarrow> checkStatus r s)"

section \<open>Invariants of the proofs and example data\<close>


definition all_finite :: "state \<Rightarrow> bool" where
  "all_finite s = (columnHeights s \<noteq> [] \<and> length (columnHeights s) = length (columns s)
                   \<and> (\<forall>h\<in>set (columnHeights s). \<exists>q. h = Fin q))"

definition nonneg_double :: "jsnum \<Rightarrow> bool" where
  \<comment> \<open>\<open>+Infinity\<close>, or a double that is not negative: a number that rounding leaves as
      it is\<close>
  "nonneg_double h = (case h of Fin v \<Rightarrow> 0 \<le> v \<and> fl v = Fin v | PInf \<Rightarrow> True | _ \<Rightarrow> False)"

definition rounded_layout :: "state \<Rightarrow> bool" where
  "rounded_layout s = (columns s \<noteq> [] \<and> length (columnHeights s) = length (columns s)
                       \<and> (\<forall>h\<in>set (columnHeights s). nonneg_double h))"

definition cv_nan :: "jsval \<Rightarrow> jsnum option" where
  \<comment> \<open>a conversion for the examples, none of which converts a string, array or object\<close>
  "cv_nan v = Some NaN"

definition square_photo :: photo where
  "square_photo = \<lparr>source = JObj [(''width'', JNum (Fin 3000)), (''height'', JNum (Fin 3000))],
                   ratio = Fin 1\<rparr>"

definition tall_photo :: photo where
  \<comment> \<open>the ratio is the double nearest to \<open>3200 / 2800\<close>\<close>
  "tall_photo = \<lparr>source = JObj [(''width'', JNum (Fin 2800)), (''height'', JNum (Fin 3200))],
                 ratio = Fin (2573485501354569 / 2251799813685248)\<rparr>"

definition wide_photo :: photo where
  "wide_photo = \<lparr>source = JObj [(''width'', JNum (Fin 3000)), (''height'', JNum (Fin 1500))],
                 ratio = Fin (1 / 2)\<rparr>"

definition sizeless_json :: jsval where
  \<comment> \<open>a photo whose ratio is \<open>0 / 0\<close>\<close>
  "sizeless_json = JObj [(''width'', JNum (Fin 0)), (''height'', JNum (Fin 0))]"

definition one_photo_state :: state where
  "one_photo_state = snd (addPhoto cv_nan (source square_photo) (init ''''))"

definition not_found :: response where
  "not_found = \<lparr>status = 404, headers = Map.empty, body_text = '''', body_json = None\<rparr>"

definition next_link :: string where
  \<comment> \<open>\<open><https://api.unsplash.com/photos?page=2>; rel="next"\<close>\<close>
  "next_link = ''<https://api.unsplash.com/photos?page=2>; rel='' @ [CHR 0x22] @ ''next'' @ [CHR 0x22]"

definition empty_page :: response where
  \<comment> \<open>a page without photos that names a next page\<close>
  "empty_page = \<lparr>status = 200, headers = [''link'' \<mapsto> next_link], body_text = ''[]'',
                 body_json = Some (JArr [])\<rparr>"

definition rate_limited :: response where
  \<comment> \<open>status 403 with no quota left, announced as JSON, with a body without \<open>errors\<close>\<close>
  "rate_limited = \<lparr>status = 403,
                    headers = [''content-type'' \<mapsto> ''application/json'',
                               ''x-ratelimit-remaining'' \<mapsto> ''0''],
                    body_text = ''{}'', body_json = Some (JObj [])\<rparr>"


definition unquoted_link_page :: response where
  \<comment> \<open>a page whose Link header has no quotes around the relation\<close>
  "unquoted_link_page = \<lparr>status = 200, headers = [''link'' \<mapsto> ''<u>; rel=next''],
                          body_text = ''[]'', body_json = Some (JArr [JObj []])\<rparr>"

definition without_pagination :: "state \<Rightarrow> state" where
  "without_pagination s = s\<lparr>pagination := Map.empty\<rparr>"

definition one_photo_page :: response where
  \<comment> \<open>a last page: one photo and no Link header\<close>
  "one_photo_page =
     \<lparr>status = 200, headers = Map.empty,
      body_text = ''[{'' @ [CHR 0x22] @ ''width'' @ [CHR 0x22] @ '':3000,'' @ [CHR 0x22]
                  @ ''height'' @ [CHR 0x22] @ '':3000}]'',
      body_json = Some (JArr [source square_photo])\<rparr>"

definition searching_state :: state where
  \<comment> \<open>after \<open>init\<close>, \<open>loadNew\<close>, a call of \<open>updateSearch\<close> before the request is
      answered, and the answer \<open>one_photo_page\<close> to the request: a photo, no next
      page, and the search waiting in its \<open>timeout\<close>\<close>
  "searching_state =
     snd (loading_settle cv_nan (Response one_photo_page)
            (snd (updateSearch ''a'' (snd (loadNew (init ''''))))))"

section \<open>Properties of the number operations\<close>

lemma foldl_lowest:
  fixes f :: "jsnum \<Rightarrow> jsnum \<Rightarrow> jsnum"
  assumes f: "f = (\<lambda>lowest x. if num_key x < num_key lowest then x else lowest)"
  shows "foldl f a xs \<in> insert a (set xs) \<and> num_key (foldl f a xs) \<le> num_key a
         \<and> (\<forall>x\<in>set xs. num_key (foldl f a xs) \<le> num_key x)"
proof (induction xs arbitrary: a)
  case Nil
  show ?case by simp
next
  case (Cons y ys)
  have step: "f a y = y \<and> num_key y < num_key a \<or> f a y = a \<and> num_key a \<le> num_key y"
    by (auto simp: f)
  from Cons.IH [of "f a y"] step show ?case
    by (auto simp: intro: order_trans less_imp_le)
qed

lemma key_below_PInf: "x \<noteq> NaN \<Longrightarrow> num_key x \<le> num_key PInf"
  by (cases x) (auto simp: num_key_def less_eq_prod_def)

lemma key_PInf: "x \<noteq> NaN \<Longrightarrow> num_key PInf \<le> num_key x \<Longrightarrow> x = PInf"
  by (cases x) (auto simp: num_key_def less_eq_prod_def)

lemma Math_min_in_set:
  assumes "xs \<noteq> []" "NaN \<notin> set xs"
  shows "Math_min xs \<in> set xs"
proof -
  let ?f = "\<lambda>lowest x. if num_key x < num_key lowest then x else lowest"
  have r: "foldl ?f PInf xs \<in> insert PInf (set xs)"
     and m: "\<forall>x\<in>set xs. num_key (foldl ?f PInf xs) \<le> num_key x"
    using foldl_lowest [of ?f PInf xs] by auto
  show ?thesis
  proof (cases "foldl ?f PInf xs \<in> set xs")
    case True then show ?thesis using assms by (simp add: Math_min_def)
  next
    case False
    with r have e: "foldl ?f PInf xs = PInf" by auto
    from assms obtain x where x: "x \<in> set xs" by (cases xs) auto
    with assms have "x \<noteq> NaN" by auto
    moreover from m x e have "num_key PInf \<le> num_key x" by auto
    ultimately have "x = PInf" by (rule key_PInf)
    with x e False show ?thesis by simp
  qed
qed

lemma Math_min_least:
  assumes "NaN \<notin> set xs" "x \<in> set xs"
  shows "num_key (Math_min xs) \<le> num_key x"
  using foldl_lowest [of "\<lambda>lowest x. if num_key x < num_key lowest then x else lowest" PInf xs] assms
  by (auto simp: Math_min_def)

lemma indexOf_None: "indexOf xs v = None \<longleftrightarrow> (\<forall>x\<in>set xs. \<not> strict_eq x v)"
  by (induction xs) auto

lemma indexOf_Some:
  "indexOf xs v = Some i \<Longrightarrow> i < length xs \<and> strict_eq (xs ! i) v \<and> (\<forall>j<i. \<not> strict_eq (xs ! j) v)"
proof (induction xs arbitrary: i)
  case Nil then show ?case by simp
next
  case (Cons x xs)
  show ?case
  proof (cases "strict_eq x v")
    case True with Cons.prems show ?thesis by simp
  next
    case False
    with Cons.prems obtain k where k: "indexOf xs v = Some k" "i = Suc k" by auto
    from Cons.IH [OF k(1)] False k(2) show ?thesis
      by (auto simp: less_Suc_eq_0_disj)
  qed
qed

lemma strict_eq_refl: "x \<noteq> NaN \<Longrightarrow> strict_eq x x"
  by (simp add: strict_eq_def)

lemma indexOf_Math_min:
  assumes "xs \<noteq> []" "NaN \<notin> set xs"
  shows "\<exists>i. indexOf xs (Math_min xs) = Some i"
proof -
  have "Math_min xs \<in> set xs" using assms by (rule Math_min_in_set)
  moreover from this assms have "strict_eq (Math_min xs) (Math_min xs)"
    by (intro strict_eq_refl) auto
  ultimately have "indexOf xs (Math_min xs) \<noteq> None" by (auto simp: indexOf_None)
  then show ?thesis by auto
qed

lemma indexOf_NaN: "indexOf xs NaN = None"
  by (simp add: indexOf_None strict_eq_def)

lemma Math_min_NaN: "NaN \<in> set xs \<Longrightarrow> Math_min xs = NaN"
  by (simp add: Math_min_def)

lemma strict_eq_key:
  "strict_eq a b \<Longrightarrow> (fst (num_key a), fst (snd (num_key a))) = (fst (num_key b), fst (snd (num_key b)))"
  by (cases a; cases b) (auto simp: strict_eq_def is_zero_def num_key_def)

lemma key_le_not_less: "num_key a \<le> num_key b \<Longrightarrow> \<not> js_less b a"
  by (cases a; cases b) (auto simp: js_less_def num_key_def less_eq_prod_def less_prod_def)

lemma not_eq_key_le_less:
  "a \<noteq> NaN \<Longrightarrow> b \<noteq> NaN \<Longrightarrow> num_key a \<le> num_key b \<Longrightarrow> \<not> strict_eq b a \<Longrightarrow> js_less a b"
  by (cases a; cases b) (auto simp: js_less_def num_key_def less_eq_prod_def less_prod_def strict_eq_def is_zero_def)

lemma pow2_pos: "0 < pow2 k"
  by (simp add: pow2_def)

lemma round_half_even_nonneg: "0 \<le> q \<Longrightarrow> 0 \<le> round_half_even q"
  by (auto simp: round_half_even_def Let_def)

lemma fl_nonneg: "0 \<le> x \<Longrightarrow> nonneg (fl x)"
proof -
  assume x: "0 \<le> x"
  have "0 \<le> round_half_even (\<bar>x\<bar> / pow2 k)" for k
    using pow2_pos [of k] by (intro round_half_even_nonneg) simp
  moreover have "0 \<le> sgn x" using x by (simp add: sgn_if)
  ultimately show ?thesis using x pow2_pos
    by (auto simp: fl_def Let_def nonneg_def less_imp_le)
qed

lemma nonneg_not_NaN: "nonneg x \<Longrightarrow> x \<noteq> NaN"
  by (auto simp: nonneg_def)

lemma nonneg_mul300: "nonneg x \<Longrightarrow> nonneg (js_mul300 x)"
  by (cases x) (auto simp: js_mul300_def nonneg_def intro: fl_nonneg [unfolded nonneg_def])

lemma nonneg_add: "nonneg a \<Longrightarrow> nonneg b \<Longrightarrow> nonneg (js_add a b)"
proof -
  assume a: "nonneg a" and b: "nonneg b"
  have v: "0 \<le> num_val a + num_val b"
    using a b by (cases a; cases b) (auto simp: nonneg_def num_val_def)
  show ?thesis
    using a b fl_nonneg [OF v]
    by (cases a; cases b) (auto simp: js_add_def is_inf_def nonneg_def)
qed

section \<open>Properties of rounding\<close>

text \<open>
  Rounding to the nearest double is monotone, leaves a double as it is, and moves a
  sum of two doubles by at most \<open>2\<^sup>-\<^sup>5\<^sup>3\<close> of the result. These are the facts
  about \<open>fl\<close> that the bound on the column heights rests on.
\<close>

lemma pow2_powi: "pow2 k = 2 powi k"
  unfolding pow2_def power_int_def by (simp add: field_simps)


lemma bitlen_bounds: "0 < n \<Longrightarrow> 2 ^ (bitlen n - 1) \<le> n \<and> n < 2 ^ bitlen n"
proof (induction n rule: bitlen.induct)
  case (1 n)
  show ?case
  proof (cases "n div 2 = 0")
    case True
    with 1 have "n = 1" by (simp add: div_eq_0_iff) 
    then show ?thesis by (simp add: bitlen.simps)
  next
    case False
    then have pos: "0 < n div 2" by simp
    from 1 have n: "n \<noteq> 0" by simp
    from "1.IH" [OF n pos]
    have ih: "2 ^ (bitlen (n div 2) - 1) \<le> n div 2" "n div 2 < 2 ^ bitlen (n div 2)" by auto
    have b: "bitlen n = Suc (bitlen (n div 2))" using n by (simp add: bitlen.simps)
    have bp: "0 < bitlen (n div 2)" using pos by (simp add: bitlen.simps)
    then have "(2::nat) ^ bitlen (n div 2) = 2 * 2 ^ (bitlen (n div 2) - 1)"
      by (cases "bitlen (n div 2)") auto
    with ih(1) have "(2::nat) ^ bitlen (n div 2) \<le> 2 * (n div 2)" by simp
    also have "\<dots> \<le> n" by simp
    finally have lo: "2 ^ (bitlen n - 1) \<le> n" by (simp add: b)
    from ih(2) have "n div 2 + 1 \<le> 2 ^ bitlen (n div 2)" by simp
    then have "2 * (n div 2) + 2 \<le> 2 ^ bitlen n" by (simp add: b)
    moreover have "n < 2 * (n div 2) + 2" by presburger
    ultimately have "n < 2 ^ bitlen n" by linarith
    with lo show ?thesis by simp
  qed
qed


lemma pow2_add: "pow2 (a + b) = pow2 a * pow2 b"
  by (simp add: pow2_powi power_int_add)

lemma pow2_mono: "a \<le> b \<Longrightarrow> pow2 a \<le> pow2 b"
  by (simp add: pow2_powi power_int_increasing)

lemma pow2_strict_mono: "a < b \<Longrightarrow> pow2 a < pow2 b"
  by (simp add: pow2_powi power_int_strict_increasing)

lemma pow2_less_iff: "pow2 a < pow2 b \<longleftrightarrow> a < b"
  using pow2_strict_mono [of a b] pow2_mono [of b a] by (auto simp: not_less [symmetric])

lemma pow2_nat: "pow2 (int n) = 2 ^ n"
  by (simp add: pow2_def)

lemma pow2_neg_nat: "pow2 (- int n) = 1 / 2 ^ n"
  by (simp add: pow2_def)

lemma bitlen_pos: "0 < n \<Longrightarrow> 0 < bitlen n"
  by (simp add: bitlen.simps)

lemma ilog2_bounds:
  assumes x: "0 < x"
  shows "pow2 (ilog2 x) \<le> x \<and> x < pow2 (ilog2 x + 1)"
proof (cases "1 \<le> x")
  case True
  define n where "n = nat \<lfloor>x\<rfloor>"
  have n: "0 < n" using True by (simp add: n_def)
  have nx: "of_nat n \<le> x" "x < of_nat n + 1"
    using True by (simp_all add: n_def) linarith
  have i: "ilog2 x = int (bitlen n) - 1" using True by (simp add: ilog2_def n_def)
  from bitlen_pos [OF n] have i': "ilog2 x = int (bitlen n - 1)" "ilog2 x + 1 = int (bitlen n)"
    by (simp_all add: i)
  from bitlen_bounds [OF n] have b: "2 ^ (bitlen n - 1) \<le> n" "n + 1 \<le> 2 ^ bitlen n" by auto
  have "pow2 (ilog2 x) = of_nat (2 ^ (bitlen n - 1))" by (simp add: i'(1) pow2_nat)
  also have "\<dots> \<le> of_nat n" using b(1) by (simp only: of_nat_le_iff)
  finally have lo: "pow2 (ilog2 x) \<le> x" using nx(1) by simp
  have "x < of_nat (n + 1)" using nx(2) by simp
  also have "\<dots> \<le> of_nat (2 ^ bitlen n)" using b(2) by (simp only: of_nat_le_iff)
  also have "\<dots> = pow2 (ilog2 x + 1)" by (simp add: i'(2) pow2_nat)
  finally show ?thesis using lo by simp
next
  case False
  define y where "y = 1 / x"
  have y: "1 < y" using False x by (simp add: y_def)
  define k where "k = nat \<lceil>y\<rceil>"
  have k2: "2 \<le> k" using y by (simp add: k_def) linarith
  have ky: "y \<le> of_nat k" "of_nat k - 1 < y"
    using y by (simp_all add: k_def) linarith+
  define b where "b = bitlen (k - 1)"
  have k1: "0 < k - 1" using k2 by simp
  have i: "ilog2 x = - int b" using False by (simp add: ilog2_def b_def k_def y_def)
  from bitlen_pos [OF k1] have bp: "0 < b" by (simp add: b_def)
  then have i1: "ilog2 x + 1 = - int (b - 1)" by (simp add: i)
  from bitlen_bounds [OF k1] have bb: "2 ^ (b - 1) \<le> k - 1" "k \<le> 2 ^ b"
    using k2 by (auto simp: b_def)
  have "y \<le> of_nat k" by (rule ky)
  also have "\<dots> \<le> of_nat (2 ^ b)" using bb(2) by (simp only: of_nat_le_iff)
  finally have "y \<le> 2 ^ b" by simp
  then have lo: "pow2 (ilog2 x) \<le> x"
    using x by (simp add: i pow2_neg_nat y_def field_simps)
  have "(of_nat (2 ^ (b - 1)) :: rat) \<le> of_nat (k - 1)" using bb(1) by (simp only: of_nat_le_iff)
  also have "\<dots> = of_nat k - 1" using k2 by (simp add: of_nat_diff)
  also have "\<dots> < y" by (rule ky)
  finally have "2 ^ (b - 1) < y" by simp
  then have "x < 1 / 2 ^ (b - 1)"
    using x by (simp add: y_def field_simps)
  then have "x < pow2 (ilog2 x + 1)"
    unfolding i1 pow2_neg_nat .
  with lo show ?thesis by simp
qed

lemma ilog2_unique:
  assumes "0 < x" "pow2 k \<le> x" "x < pow2 (k + 1)"
  shows "ilog2 x = k"
proof -
  from ilog2_bounds [OF assms(1)] have b: "pow2 (ilog2 x) \<le> x" "x < pow2 (ilog2 x + 1)" by auto
  from b(1) assms(3) have "pow2 (ilog2 x) < pow2 (k + 1)" by simp
  then have 1: "ilog2 x < k + 1" by (simp add: pow2_less_iff)
  from assms(2) b(2) have "pow2 k < pow2 (ilog2 x + 1)" by simp
  then have "k < ilog2 x + 1" by (simp add: pow2_less_iff)
  with 1 show ?thesis by simp
qed

lemma ilog2_mono:
  assumes "0 < x" "x \<le> y"
  shows "ilog2 x \<le> ilog2 y"
proof -
  from assms have y: "0 < y" by simp
  from ilog2_bounds [OF assms(1)] ilog2_bounds [OF y] assms(2)
  have "pow2 (ilog2 x) < pow2 (ilog2 y + 1)" by simp
  then show ?thesis by (simp add: pow2_less_iff)
qed

lemma round_half_even_cases:
  "round_half_even q = \<lfloor>q\<rfloor> \<or> round_half_even q = \<lfloor>q\<rfloor> + 1"
  by (simp add: round_half_even_def Let_def)

lemma round_half_even_error: "\<bar>of_int (round_half_even q) - q\<bar> \<le> 1 / 2"
proof -
  have "of_int \<lfloor>q\<rfloor> \<le> q" "q < of_int \<lfloor>q\<rfloor> + 1" by linarith+
  then show ?thesis by (auto simp: round_half_even_def Let_def)
qed

lemma round_half_even_int: "round_half_even (of_int k) = k"
  by (simp add: round_half_even_def)

lemma round_half_even_mono:
  assumes "q \<le> r"
  shows "round_half_even q \<le> round_half_even r"
proof (cases "\<lfloor>q\<rfloor> = \<lfloor>r\<rfloor>")
  case True
  with assms have "q - of_int \<lfloor>q\<rfloor> \<le> r - of_int \<lfloor>r\<rfloor>" by simp
  with True show ?thesis by (auto simp: round_half_even_def Let_def)
next
  case False
  with assms have "\<lfloor>q\<rfloor> < \<lfloor>r\<rfloor>" using floor_mono [OF assms] by simp
  moreover have "round_half_even q \<le> \<lfloor>q\<rfloor> + 1" "\<lfloor>r\<rfloor> \<le> round_half_even r"
    using round_half_even_cases [of q] round_half_even_cases [of r] by auto
  ultimately show ?thesis by simp
qed

lemma pow2_53: "pow2 (e + 1) = 2 ^ 53 * pow2 (e - 52)"
proof -
  have "e + 1 = 53 + (e - 52)" by simp
  then have "pow2 (e + 1) = pow2 (53 + (e - 52))" by (rule arg_cong)
  also have "\<dots> = pow2 53 * pow2 (e - 52)" by (rule pow2_add)
  also have "pow2 53 = 2 ^ 53" using pow2_nat [of 53] by simp
  finally show ?thesis .
qed

lemma pow2_52: "pow2 e = 2 ^ 52 * pow2 (e - 52)"
proof -
  have "e = 52 + (e - 52)" by simp
  then have "pow2 e = pow2 (52 + (e - 52))" by (rule arg_cong)
  also have "\<dots> = pow2 52 * pow2 (e - 52)" by (rule pow2_add)
  also have "pow2 52 = 2 ^ 52" using pow2_nat [of 52] by simp
  finally show ?thesis .
qed

lemma fl_positive:
  assumes "0 < x" "fl x = Fin v"
  shows "v = of_int (round_half_even (x / pow2 (max (ilog2 x) (- 1022) - 52)))
               * pow2 (max (ilog2 x) (- 1022) - 52)
         \<and> v < pow2 1024"
  using assms by (auto simp: fl_def Let_def split: if_splits)

lemma significand_upper:
  assumes x: "0 < x"
  shows "round_half_even (x / pow2 (max (ilog2 x) (- 1022) - 52)) \<le> 2 ^ 53"
proof -
  let ?e = "max (ilog2 x) (- 1022)"
  have "x < pow2 (ilog2 x + 1)" using ilog2_bounds [OF x] by simp
  also have "\<dots> \<le> pow2 (?e + 1)" by (rule pow2_mono) simp
  also have "\<dots> = 2 ^ 53 * pow2 (?e - 52)" by (rule pow2_53)
  finally have "x / pow2 (?e - 52) \<le> of_int (2 ^ 53)"
    using pow2_pos [of "?e - 52"] by (simp add: field_simps)
  from round_half_even_mono [OF this] show ?thesis by (simp only: round_half_even_int)
qed

lemma significand_lower:
  assumes x: "0 < x" and e: "- 1022 \<le> ilog2 x"
  shows "2 ^ 52 \<le> round_half_even (x / pow2 (ilog2 x - 52))"
proof -
  have "2 ^ 52 * pow2 (ilog2 x - 52) = pow2 (ilog2 x)" by (rule pow2_52 [symmetric])
  also have "\<dots> \<le> x" using ilog2_bounds [OF x] by simp
  finally have "of_int (2 ^ 52) \<le> x / pow2 (ilog2 x - 52)"
    using pow2_pos [of "ilog2 x - 52"] by (simp add: field_simps)
  from round_half_even_mono [OF this] show ?thesis by (simp only: round_half_even_int)
qed

lemma fl_mono:
  assumes x: "0 < x" and xy: "x \<le> y" and a: "fl x = Fin a" and b: "fl y = Fin b"
  shows "a \<le> b"
proof -
  let ?ex = "max (ilog2 x) (- 1022)" and ?ey = "max (ilog2 y) (- 1022)"
  from x xy have y: "0 < y" by simp
  have av: "a = of_int (round_half_even (x / pow2 (?ex - 52))) * pow2 (?ex - 52)"
    using fl_positive [OF x a] by simp
  have bv: "b = of_int (round_half_even (y / pow2 (?ey - 52))) * pow2 (?ey - 52)"
    using fl_positive [OF y b] by simp
  have le: "?ex \<le> ?ey" using ilog2_mono [OF x xy] by simp
  show ?thesis
  proof (cases "?ex = ?ey")
    case True
    have "x / pow2 (?ex - 52) \<le> y / pow2 (?ex - 52)"
      using xy pow2_pos [of "?ex - 52"] by (simp add: divide_right_mono)
    from round_half_even_mono [OF this]
    have "(of_int (round_half_even (x / pow2 (?ex - 52))) :: rat)
            \<le> of_int (round_half_even (y / pow2 (?ex - 52)))" by (simp only: of_int_le_iff)
    then have "of_int (round_half_even (x / pow2 (?ex - 52))) * pow2 (?ex - 52)
            \<le> of_int (round_half_even (y / pow2 (?ex - 52))) * pow2 (?ex - 52)"
      using pow2_pos [of "?ex - 52"] by (simp add: mult_right_mono)
    then show ?thesis unfolding av bv True [symmetric] .
  next
    case False
    with le have lt: "?ex < ?ey" by (intro le_neq_trans)
    then have ey: "?ey = ilog2 y" "- 1022 \<le> ilog2 y" by linarith+
    have "(of_int (round_half_even (x / pow2 (?ex - 52))) :: rat) \<le> of_int (2 ^ 53)"
      using significand_upper [OF x] by (simp only: of_int_le_iff)
    then have "a \<le> 2 ^ 53 * pow2 (?ex - 52)"
      unfolding av using pow2_pos [of "?ex - 52"] by (simp add: mult_right_mono)
    also have "\<dots> = pow2 (?ex + 1)" by (rule pow2_53 [symmetric])
    also have "\<dots> \<le> pow2 ?ey" using lt by (intro pow2_mono) linarith
    also have "\<dots> = 2 ^ 52 * pow2 (?ey - 52)" by (rule pow2_52)
    also have "\<dots> \<le> b"
    proof -
      have "(of_int (2 ^ 52) :: rat) \<le> of_int (round_half_even (y / pow2 (ilog2 y - 52)))"
        using significand_lower [OF y ey(2)] by (simp only: of_int_le_iff)
      then have "2 ^ 52 * pow2 (ilog2 y - 52)
                   \<le> of_int (round_half_even (y / pow2 (ilog2 y - 52))) * pow2 (ilog2 y - 52)"
        using pow2_pos [of "ilog2 y - 52"] by (simp add: mult_right_mono)
      then show ?thesis unfolding bv ey(1) .
    qed
    finally show ?thesis .
  qed
qed

lemma fl_significand:
  assumes v: "0 < of_int m * pow2 (e - 52)" "of_int m * pow2 (e - 52) < pow2 1024"
    and e: "max (ilog2 (of_int m * pow2 (e - 52))) (- 1022) = e"
  shows "fl (of_int m * pow2 (e - 52)) = Fin (of_int m * pow2 (e - 52))"
proof -
  let ?v = "of_int m * pow2 (e - 52) :: rat"
  have m: "m \<noteq> 0" using v(1) by auto
  have q: "?v / pow2 (e - 52) = of_int m" using pow2_pos [of "e - 52"] by simp
  show ?thesis
    using v m by (simp add: fl_def Let_def e q round_half_even_int)
qed

lemma fl_idem:
  assumes x: "0 \<le> x" and v: "fl x = Fin v"
  shows "fl v = Fin v"
proof (cases "v = 0")
  case True
  then show ?thesis by (simp add: fl_def)
next
  case False
  with x v have xp: "0 < x" by (cases "x = 0") (auto simp: fl_def)
  define e where "e = max (ilog2 x) (- 1022)"
  define m where "m = round_half_even (x / pow2 (e - 52))"
  have vm: "v = of_int m * pow2 (e - 52)" and top: "v < pow2 1024"
    using fl_positive [OF xp v] by (simp_all add: e_def m_def)
  have up: "m \<le> 2 ^ 53" using significand_upper [OF xp] by (simp add: e_def m_def)
  have "0 \<le> m" unfolding m_def using xp pow2_pos [of "e - 52"]
    by (intro round_half_even_nonneg) simp
  with False vm have mp: "0 < m" by (cases "m = 0") auto
  then have vp: "0 < v" unfolding vm using pow2_pos [of "e - 52"] by simp
  have low: "2 ^ 52 \<le> m" if "- 1022 < e"
  proof -
    from that have "e = ilog2 x" "- 1022 \<le> ilog2 x" by (auto simp: e_def max_def split: if_splits)
    with significand_lower [OF xp] show ?thesis by (simp add: m_def)
  qed
  show ?thesis
  proof (cases "m = 2 ^ 53")
    case True
    have v1: "v = pow2 (e + 1)" unfolding vm True using pow2_53 [of e] by simp
    have "pow2 (e + 1) < pow2 (e + 1 + 1)" by (rule pow2_strict_mono) simp
    with v1 have "ilog2 v = e + 1" by (intro ilog2_unique) (simp_all add: pow2_pos)
    moreover have "- 1022 \<le> e" by (simp add: e_def)
    ultimately have e1: "max (ilog2 v) (- 1022) = e + 1" by simp
    have v2: "v = of_int (2 ^ 52) * pow2 (e + 1 - 52)" unfolding v1 using pow2_52 [of "e + 1"] by simp
    show ?thesis
      using fl_significand [of "2 ^ 52" "e + 1"] vp top e1 unfolding v2 [symmetric] by simp
  next
    case False
    with up have "m < 2 ^ 53" by simp
    then have "(of_int m :: rat) < of_int (2 ^ 53)" by (simp only: of_int_less_iff)
    then have "v < 2 ^ 53 * pow2 (e - 52)"
      unfolding vm using pow2_pos [of "e - 52"] by (simp add: mult_strict_right_mono)
    then have v3: "v < pow2 (e + 1)" by (simp only: pow2_53 [symmetric])
    have "pow2 (ilog2 v) \<le> v" using ilog2_bounds [OF vp] by simp
    with v3 have "pow2 (ilog2 v) < pow2 (e + 1)" by simp
    then have i1: "ilog2 v \<le> e" by (simp add: pow2_less_iff)
    have "max (ilog2 v) (- 1022) = e"
    proof (cases "- 1022 < e")
      case True
      from low [OF True] have "(of_int (2 ^ 52) :: rat) \<le> of_int m" by (simp only: of_int_le_iff)
      then have "2 ^ 52 * pow2 (e - 52) \<le> v"
        unfolding vm using pow2_pos [of "e - 52"] by (simp add: mult_right_mono)
      then have "pow2 e \<le> v" by (simp only: pow2_52 [symmetric])
      with v3 vp have "ilog2 v = e" by (intro ilog2_unique)
      with True show ?thesis by simp
    next
      case False
      moreover have "- 1022 \<le> e" by (simp add: e_def)
      ultimately have "e = - 1022" by simp
      with i1 show ?thesis by simp
    qed
    with fl_significand [of m e] vp top show ?thesis unfolding vm by simp
  qed
qed

lemma fl_grid:
  assumes x: "0 \<le> x" and v: "fl x = Fin v"
  shows "\<exists>k::int. v = of_int k * pow2 (- 1074)"
proof (cases "x = 0")
  case True
  with v have "v = of_int 0 * pow2 (- 1074)" by (simp add: fl_def)
  then show ?thesis ..
next
  case False
  with x have xp: "0 < x" by simp
  define e where "e = max (ilog2 x) (- 1022)"
  define m where "m = round_half_even (x / pow2 (e - 52))"
  have vm: "v = of_int m * pow2 (e - 52)"
    using fl_positive [OF xp v] by (simp_all add: e_def m_def)
  have e: "0 \<le> e + 1022" by (simp add: e_def)
  have "e - 52 = int (nat (e + 1022)) + (- 1074)" using e by simp
  then have "pow2 (e - 52) = pow2 (int (nat (e + 1022)) + (- 1074))" by (rule arg_cong)
  also have "\<dots> = of_int (2 ^ nat (e + 1022)) * pow2 (- 1074)"
    by (simp only: pow2_add pow2_nat) simp
  finally have "v = of_int (m * 2 ^ nat (e + 1022)) * pow2 (- 1074)"
    unfolding vm by simp
  then show ?thesis ..
qed

lemma fl_error:
  assumes x: "0 < x" and g: "x = of_int k * pow2 (- 1074)" and v: "fl x = Fin v"
  shows "\<bar>v - x\<bar> \<le> v / 2 ^ 53"
proof (cases "- 1022 \<le> ilog2 x")
  case True
  let ?u = "pow2 (ilog2 x - 52)"
  define m where "m = round_half_even (x / ?u)"
  have e: "max (ilog2 x) (- 1022) = ilog2 x" using True by simp
  have vm: "v = of_int m * ?u" using fl_positive [OF x v] by (simp add: e m_def)
  have u: "0 < ?u" by (rule pow2_pos)
  have "\<bar>of_int m - x / ?u\<bar> \<le> 1 / 2" unfolding m_def by (rule round_half_even_error)
  then have "\<bar>of_int m - x / ?u\<bar> * ?u \<le> 1 / 2 * ?u" using u by (simp add: mult_right_mono)
  moreover have "(of_int m - x / ?u) * ?u = v - x" using u by (simp add: vm field_simps)
  then have "\<bar>of_int m - x / ?u\<bar> * ?u = \<bar>v - x\<bar>"
    using u abs_mult [of "of_int m - x / ?u" ?u] by simp
  ultimately have err: "\<bar>v - x\<bar> \<le> ?u / 2" by simp
  have "(of_int (2 ^ 52) :: rat) \<le> of_int m"
    using significand_lower [OF x True] unfolding m_def by (simp only: of_int_le_iff)
  then have "2 ^ 52 * ?u \<le> v" unfolding vm using u by (simp add: mult_right_mono)
  then have "?u / 2 \<le> v / 2 ^ 53" by simp
  with err show ?thesis by simp
next
  case False
  then have e: "max (ilog2 x) (- 1022) - 52 = - 1074" by simp
  have "x / pow2 (- 1074) = of_int k" using pow2_pos [of "- 1074"] by (simp add: g)
  moreover have "v = of_int (round_half_even (x / pow2 (- 1074))) * pow2 (- 1074)"
    using fl_positive [OF x v] unfolding e by simp
  ultimately have "v = of_int k * pow2 (- 1074)" by (simp only: round_half_even_int)
  with g have "v = x" by simp
  with x show ?thesis by simp
qed

lemma add_rounded:
  assumes h: "0 \<le> h" "fl h = Fin h" and c: "0 \<le> c" "fl c = Fin c"
    and w: "js_add (Fin h) (Fin c) = Fin w"
  shows "h \<le> w \<and> fl w = Fin w \<and> w - h \<le> c + w / 2 ^ 53"
proof (cases "h + c = 0")
  case True
  with h c have "h = 0" "c = 0" by simp_all
  with w show ?thesis by (simp add: js_add_def is_inf_def num_val_def fl_def)
next
  case False
  with h c have x: "0 < h + c" by simp
  from w False have f: "fl (h + c) = Fin w" by (simp add: js_add_def is_inf_def num_val_def)
  have "nonneg (fl (h + c))" using x by (intro fl_nonneg) simp
  with f have w0: "0 \<le> w" by (simp add: nonneg_def)
  have 1: "h \<le> w"
  proof (cases "h = 0")
    case True with w0 show ?thesis by simp
  next
    case False
    with h have "0 < h" by simp
    moreover have "h \<le> h + c" using c by simp
    ultimately show ?thesis using h(2) f by (rule fl_mono)
  qed
  have 2: "fl w = Fin w" using x f by (intro fl_idem [of "h + c"]) simp_all
  from fl_grid [OF h] fl_grid [OF c] obtain k l :: int
    where "h = of_int k * pow2 (- 1074)" "c = of_int l * pow2 (- 1074)" by auto
  then have "h + c = of_int (k + l) * pow2 (- 1074)" by (simp add: algebra_simps)
  from fl_error [OF x this f] have "\<bar>w - (h + c)\<bar> \<le> w / 2 ^ 53" .
  then have "w - h \<le> c + w / 2 ^ 53" by linarith
  with 1 2 show ?thesis by simp
qed

section \<open>Properties of the column layout\<close>


lemma addPhotoToColumns_Some:
  "indexOf (columnHeights s) (Math_min (columnHeights s)) = Some i \<Longrightarrow>
   i < length (columns s) \<Longrightarrow>
   addPhotoToColumns p s =
     (Normal, s\<lparr>columnHeights := (columnHeights s)[i := js_add (columnHeights s ! i) (js_mul300 (ratio p))],
                columns := (columns s)[i := columns s ! i @ [p]]\<rparr>)"
  by (simp add: addPhotoToColumns_def)

lemma mset_concat_update:
  "i < length xss \<Longrightarrow> mset (concat (xss[i := xss ! i @ [x]])) = add_mset x (mset (concat xss))"
proof (induction xss arbitrary: i)
  case Nil then show ?case by simp
next
  case (Cons ys yss)
  then show ?case by (cases i) auto
qed

lemma balanced_min_index:
  assumes "balanced s"
  shows "\<exists>i. indexOf (columnHeights s) (Math_min (columnHeights s)) = Some i \<and> i < length (columns s)
     \<and> (\<forall>j<length (columnHeights s). \<not> js_less (columnHeights s ! j) (columnHeights s ! i))
     \<and> (\<forall>j<i. js_less (columnHeights s ! i) (columnHeights s ! j))"
proof -
  let ?hs = "columnHeights s"
  from assms have ne: "?hs \<noteq> []" and len: "length ?hs = length (columns s)"
    and nn: "NaN \<notin> set ?hs"
    by (auto simp: balanced_def)
  from indexOf_Math_min [OF ne nn] obtain i where i: "indexOf ?hs (Math_min ?hs) = Some i" ..
  from indexOf_Some [OF i] have il: "i < length ?hs" and eq: "strict_eq (?hs ! i) (Math_min ?hs)"
    and first: "\<forall>j<i. \<not> strict_eq (?hs ! j) (Math_min ?hs)" by auto
  have least: "num_key (Math_min ?hs) \<le> num_key (?hs ! j)" if "j < length ?hs" for j
    using Math_min_least [OF nn] that by simp
  have mn: "Math_min ?hs \<noteq> NaN" using eq by (simp add: strict_eq_def)
  have hj: "?hs ! j \<noteq> NaN" if "j < length ?hs" for j
    using nn that by (metis nth_mem)
  have a: "\<not> js_less (?hs ! j) (?hs ! i)" if j: "j < length ?hs" for j
  proof
    assume l: "js_less (?hs ! j) (?hs ! i)"
    from key_le_not_less [OF least [OF j]] have "\<not> js_less (?hs ! j) (Math_min ?hs)" .
    with l strict_eq_key [OF eq] mn show False by (simp add: js_less_def)
  qed
  have b: "js_less (?hs ! i) (?hs ! j)" if j: "j < i" for j
  proof -
    from j il have jl: "j < length ?hs" by simp
    from first j have "\<not> strict_eq (?hs ! j) (Math_min ?hs)" by simp
    from not_eq_key_le_less [OF mn hj [OF jl] least [OF jl] this]
    have "js_less (Math_min ?hs) (?hs ! j)" .
    with strict_eq_key [OF eq] hj [OF il] show ?thesis by (simp add: js_less_def)
  qed
  from i il len a b show ?thesis by auto
qed

lemma balanced_photos_update:
  "balanced s \<Longrightarrow> balanced (s\<lparr>photos := ps\<rparr>) \<longleftrightarrow> mset (concat (columns s)) = mset ps"
  by (simp add: balanced_def)

lemma addPhotoToColumns_balanced:
  assumes b: "columns s \<noteq> []" "length (columnHeights s) = length (columns s)"
             "add_mset p (mset (concat (columns s))) = mset (photos s)"
      and i: "indexOf (columnHeights s) (Math_min (columnHeights s)) = Some i" "i < length (columns s)"
      and n: "NaN \<notin> set (columnHeights (snd (addPhotoToColumns p s)))"
  shows "balanced (snd (addPhotoToColumns p s))"
  using b i n by (simp add: addPhotoToColumns_Some [OF i] balanced_def mset_concat_update)









lemma spread_update:
  fixes vs :: "rat list"
  assumes i: "i < length vs" and least: "\<forall>j<length vs. vs ! i \<le> vs ! j" and c: "0 \<le> c"
  shows "Max (set (vs[i := vs ! i + c])) - Min (set (vs[i := vs ! i + c]))
           \<le> max (Max (set vs) - Min (set vs)) c"
proof -
  let ?ws = "vs[i := vs ! i + c]"
  from i have ne: "set vs \<noteq> {}" "set ?ws \<noteq> {}" by auto
  have lo: "vs ! i \<le> w" if "w \<in> set ?ws" for w
  proof -
    from that obtain j where j: "j < length vs" "w = ?ws ! j"
      by (auto simp: in_set_conv_nth)
    then show ?thesis using least c i by (cases "j = i") auto
  qed
  have hi: "w \<le> max (Max (set vs)) (vs ! i + c)" if "w \<in> set ?ws" for w
  proof -
    from that set_update_subset_insert [of vs i "vs ! i + c"]
    have "w = vs ! i + c \<or> w \<in> set vs" by auto
    then show ?thesis by (auto simp: max_def intro: Max_ge order_trans)
  qed
  have m: "Min (set vs) = vs ! i"
  proof (rule Min_eqI)
    show "finite (set vs)" by simp
    show "vs ! i \<le> y" if "y \<in> set vs" for y
      using that least by (auto simp: in_set_conv_nth)
    show "vs ! i \<in> set vs" using i by simp
  qed
  have "Max (set ?ws) \<le> max (Max (set vs)) (vs ! i + c)"
    using ne hi by (subst Max_le_iff) auto
  moreover have "vs ! i \<le> Min (set ?ws)"
    using ne lo by (subst Min_ge_iff) auto
  ultimately show ?thesis using m by (auto simp: max_def)
qed

lemma key_le_Fin: "num_key (Fin a) \<le> num_key (Fin b) \<longleftrightarrow> a \<le> b"
  by (auto simp: num_key_def less_eq_prod_def)

lemma strict_eq_Fin: "strict_eq (Fin a) (Fin b) \<longleftrightarrow> a = b"
  by (auto simp: strict_eq_def is_zero_def)

lemma positive_contribution:
  assumes "positive_finite (ratio p)" "contribution p = Fin c"
  shows "0 \<le> c"
proof -
  from assms(1) have "nonneg (ratio p)"
    by (cases "ratio p") (auto simp: positive_finite_def nonneg_def)
  from nonneg_mul300 [OF this] assms(2) show ?thesis
    by (simp add: contribution_def nonneg_def)
qed

lemma all_finite_min:
  assumes "all_finite s" "indexOf (columnHeights s) (Math_min (columnHeights s)) = Some i"
  shows "i < length (columnHeights s)
         \<and> (\<forall>j<length (columnHeights s). num_val (columnHeights s ! i) \<le> num_val (columnHeights s ! j))"
proof -
  let ?hs = "columnHeights s"
  from assms(1) have fin: "\<forall>h\<in>set ?hs. \<exists>q. h = Fin q" and nn: "NaN \<notin> set ?hs"
    by (auto simp: all_finite_def)
  from indexOf_Some [OF assms(2)] have il: "i < length ?hs" and eq: "strict_eq (?hs ! i) (Math_min ?hs)"
    by auto
  have "num_val (?hs ! i) \<le> num_val (?hs ! j)" if j: "j < length ?hs" for j
  proof -
    from fin il obtain a where a: "?hs ! i = Fin a" by (metis nth_mem)
    from fin j obtain b where b: "?hs ! j = Fin b" by (metis nth_mem)
    from il nn have "Math_min ?hs \<in> set ?hs" by (intro Math_min_in_set) auto
    with fin obtain m where m: "Math_min ?hs = Fin m" by auto
    from Math_min_least [OF nn, of "?hs ! j"] j have "num_key (Math_min ?hs) \<le> num_key (?hs ! j)"
      by simp
    with eq a b m show ?thesis by (simp add: key_le_Fin strict_eq_Fin num_val_def)
  qed
  with il show ?thesis by simp
qed

lemma spread_zero: "0 < n \<Longrightarrow> spread (replicate n (Fin 0)) = 0"
  by (simp add: spread_def num_val_def)

lemma addPhoto_keeps_balanced:
  assumes b: "balanced s" and h: "\<forall>h\<in>set (columnHeights s). nonneg h"
      and r: "ratio_of cv x = Some r" and n: "nonneg r"
  shows "\<exists>s'. addPhoto cv x s = (Normal, s') \<and> balanced s'
              \<and> (\<forall>h\<in>set (columnHeights s'). nonneg h)"
proof -
  let ?p = "\<lparr>source = x, ratio = r\<rparr>"
  let ?s = "s\<lparr>photos := photos s @ [?p]\<rparr>"
  from balanced_min_index [OF b] obtain i where
    i: "indexOf (columnHeights s) (Math_min (columnHeights s)) = Some i" "i < length (columns s)"
    by blast
  have i': "indexOf (columnHeights ?s) (Math_min (columnHeights ?s)) = Some i" "i < length (columns ?s)"
    using i by simp_all
  have e: "addPhoto cv x s = addPhotoToColumns ?p ?s"
    using r by (simp add: addPhoto_def)
  have il: "i < length (columnHeights s)" using i b by (simp add: balanced_def)
  have "nonneg (js_add (columnHeights s ! i) (js_mul300 r))"
    using h il n by (intro nonneg_add nonneg_mul300) auto
  then have hs: "\<forall>h\<in>set ((columnHeights s)[i := js_add (columnHeights s ! i) (js_mul300 r)]). nonneg h"
    using h by (auto dest!: set_update_subset_insert [THEN subsetD])
  have st: "addPhotoToColumns ?p ?s =
      (Normal, ?s\<lparr>columnHeights := (columnHeights s)[i := js_add (columnHeights s ! i) (js_mul300 r)],
                  columns := (columns s)[i := columns s ! i @ [?p]]\<rparr>)"
    using addPhotoToColumns_Some [OF i', of ?p] by simp
  have nn: "NaN \<notin> set (columnHeights (snd (addPhotoToColumns ?p ?s)))"
    using hs st by (auto dest: nonneg_not_NaN)
  have "balanced (snd (addPhotoToColumns ?p ?s))"
    using b nn by (intro addPhotoToColumns_balanced [OF _ _ _ i']) (auto simp: balanced_def)
  with e st hs show ?thesis by simp
qed

lemma forEach_addPhoto_balanced:
  "balanced s \<Longrightarrow> \<forall>h\<in>set (columnHeights s). nonneg h \<Longrightarrow>
   \<forall>x\<in>set xs. \<exists>r. ratio_of cv x = Some r \<and> nonneg r \<Longrightarrow>
   fst (forEach_addPhoto cv xs s) = Normal \<and> balanced (snd (forEach_addPhoto cv xs s))"
proof (induction xs arbitrary: s)
  case Nil
  then show ?case by simp
next
  case (Cons x xs)
  from Cons.prems(3) obtain r where r: "ratio_of cv x = Some r" "nonneg r" by auto
  from addPhoto_keeps_balanced [OF Cons.prems(1,2) r] obtain s'
    where s': "addPhoto cv x s = (Normal, s')" "balanced s'" "\<forall>h\<in>set (columnHeights s'). nonneg h"
    by blast
  from Cons.IH [OF s'(2,3)] Cons.prems(3) s'(1) show ?case by simp
qed

lemma fl_not_NZero: "0 \<le> x \<Longrightarrow> fl x \<noteq> NZero"
  by (auto simp: fl_def Let_def)

lemma nonneg_double_fl: "0 \<le> x \<Longrightarrow> nonneg_double (fl x)"
proof -
  assume x: "0 \<le> x"
  show ?thesis
  proof (cases "fl x")
    case (Fin v)
    with fl_nonneg [OF x] fl_idem [OF x Fin] show ?thesis by (simp add: nonneg_double_def nonneg_def)
  next
    case NZero with fl_not_NZero [OF x] show ?thesis by simp
  qed (use fl_nonneg [OF x] in \<open>simp_all add: nonneg_double_def nonneg_def\<close>)
qed

lemma nonneg_double_contribution:
  "positive_finite (ratio p) \<Longrightarrow> nonneg_double (contribution p)"
  by (cases "ratio p")
     (auto simp: positive_finite_def contribution_def js_mul300_def intro!: nonneg_double_fl)

lemma nonneg_double_add:
  assumes a: "nonneg_double a" and b: "nonneg_double b"
  shows "nonneg_double (js_add a b)"
proof (cases a)
  case (Fin h)
  show ?thesis
  proof (cases b)
    case b': (Fin c)
    from a b Fin b' have "0 \<le> h + c" by (simp add: nonneg_double_def)
    from nonneg_double_fl [OF this] have "nonneg_double (fl (h + c))" .
    moreover have "nonneg_double (Fin 0)" by (simp add: nonneg_double_def fl_def)
    moreover have "js_add (Fin h) (Fin c) = (if h + c = 0 then Fin 0 else fl (h + c))"
      by (simp add: js_add_def is_inf_def num_val_def)
    ultimately show ?thesis using Fin b' by simp
  qed (use b Fin in \<open>simp_all add: nonneg_double_def js_add_def is_inf_def\<close>)
qed (use a b in \<open>auto simp: nonneg_double_def js_add_def split: jsnum.splits\<close>)

lemma nonneg_double_not_NaN: "nonneg_double h \<Longrightarrow> h \<noteq> NaN"
  by (auto simp: nonneg_double_def)

lemma highest_ge: "h \<in> set hs \<Longrightarrow> num_val h \<le> highest hs"
  unfolding highest_def by (rule Max_ge) simp_all

lemma rounded_step:
  assumes inv: "rounded_layout s" and pos: "positive_finite (ratio p)"
  shows "\<exists>s'. addPhotoToColumns p s = (Normal, s') \<and> rounded_layout s'
           \<and> (PInf \<in> set (columnHeights s) \<longrightarrow> PInf \<in> set (columnHeights s'))
           \<and> (PInf \<notin> set (columnHeights s') \<longrightarrow>
                highest (columnHeights s) \<le> highest (columnHeights s')
                \<and> spread (columnHeights s')
                    \<le> max (spread (columnHeights s))
                          (num_val (contribution p) + highest (columnHeights s') / 2 ^ 53))"
proof -
  let ?hs = "columnHeights s"
  from inv have ne: "?hs \<noteq> []" and len: "length ?hs = length (columns s)"
    and dbl: "\<forall>h\<in>set ?hs. nonneg_double h"
    by (auto simp: rounded_layout_def)
  from dbl have nn: "NaN \<notin> set ?hs" by (auto dest: nonneg_double_not_NaN)
  from indexOf_Math_min [OF ne nn] obtain i where i: "indexOf ?hs (Math_min ?hs) = Some i" ..
  from indexOf_Some [OF i] len have il: "i < length ?hs" and ic: "i < length (columns s)" by simp_all
  let ?w = "js_add (?hs ! i) (contribution p)"
  let ?hs' = "?hs[i := ?w]"
  let ?s' = "s\<lparr>columnHeights := ?hs', columns := (columns s)[i := columns s ! i @ [p]]\<rparr>"
  have step: "addPhotoToColumns p s = (Normal, ?s')"
    using addPhotoToColumns_Some [OF i ic, of p] by (simp add: contribution_def)
  have cd: "nonneg_double (contribution p)" using pos by (rule nonneg_double_contribution)
  have wd: "nonneg_double ?w" using dbl il cd by (intro nonneg_double_add) auto
  have dbl': "\<forall>h\<in>set ?hs'. nonneg_double h"
    using dbl wd by (auto dest!: set_update_subset_insert [THEN subsetD])
  have inv': "rounded_layout ?s'" using inv dbl' by (simp add: rounded_layout_def)
  have keep: "PInf \<in> set ?hs'" if "PInf \<in> set ?hs"
  proof -
    from that obtain j where j: "j < length ?hs" "?hs ! j = PInf" by (auto simp: in_set_conv_nth)
    have "?hs' ! j = PInf"
    proof (cases "j = i")
      case True
      with j cd show ?thesis by (auto simp: js_add_def nonneg_double_def)
    next
      case False with j show ?thesis by simp
    qed
    with j(1) show ?thesis by (metis length_list_update nth_mem)
  qed
  have bound: "highest ?hs \<le> highest ?hs' \<and>
      spread ?hs' \<le> max (spread ?hs) (num_val (contribution p) + highest ?hs' / 2 ^ 53)"
    if fin': "PInf \<notin> set ?hs'"
  proof -
    from fin' keep have fin: "PInf \<notin> set ?hs" by auto
    have allfin: "\<forall>h\<in>set ?hs. \<exists>q. h = Fin q"
    proof
      fix h assume "h \<in> set ?hs"
      with dbl fin have "nonneg_double h" "h \<noteq> PInf" by auto
      then show "\<exists>q. h = Fin q" by (cases h) (simp_all add: nonneg_double_def)
    qed
    then have af: "all_finite s" using ne len by (simp add: all_finite_def)
    from all_finite_min [OF af i]
    have least: "\<forall>j<length ?hs. num_val (?hs ! i) \<le> num_val (?hs ! j)" by simp
    from allfin il obtain h where h: "?hs ! i = Fin h" by (metis nth_mem)
    from dbl il h have hd: "0 \<le> h" "fl h = Fin h" by (auto simp: nonneg_double_def dest!: nth_mem)
    have "?w \<in> set ?hs'" using il by (simp add: set_update_memI)
    with fin' wd obtain w where w: "?w = Fin w"
      by (cases ?w) (auto simp: nonneg_double_def)
    from w h cd obtain c where c: "contribution p = Fin c"
      by (cases "contribution p") (auto simp: js_add_def is_inf_def nonneg_double_def)
    from cd c have cdd: "0 \<le> c" "fl c = Fin c" by (simp_all add: nonneg_double_def)
    from add_rounded [OF hd cdd] w h c
    have r: "h \<le> w" "w - h \<le> c + w / 2 ^ 53" by simp_all
    have wh: "w \<le> highest ?hs'"
      using highest_ge [of ?w ?hs'] il w by (simp add: set_update_memI num_val_def)
    have m: "map num_val ?hs' = (map num_val ?hs)[i := map num_val ?hs ! i + (w - h)]"
      using il h w by (simp add: map_update num_val_def)
    have "spread ?hs' \<le> max (spread ?hs) (w - h)"
      unfolding spread_def m
      using il least r(1) by (intro spread_update) auto
    moreover have "w - h \<le> num_val (contribution p) + highest ?hs' / 2 ^ 53"
      using r(2) wh c by (simp add: num_val_def) 
    ultimately have sp: "spread ?hs' \<le> max (spread ?hs) (num_val (contribution p) + highest ?hs' / 2 ^ 53)"
      by linarith
    have "highest ?hs \<le> highest ?hs'"
      unfolding highest_def [of ?hs]
    proof (rule Max.boundedI)
      show "finite (set (map num_val ?hs))" by simp
      show "set (map num_val ?hs) \<noteq> {}" using ne by simp
      fix v assume "v \<in> set (map num_val ?hs)"
      then obtain j where j: "j < length ?hs" "v = num_val (?hs ! j)"
        by (auto simp: in_set_conv_nth)
      show "v \<le> highest ?hs'"
      proof (cases "j = i")
        case True
        with j h r(1) wh show ?thesis by (simp add: num_val_def)
      next
        case False
        with j have "?hs ! j \<in> set ?hs'" by (metis length_list_update nth_list_update_neq nth_mem)
        from highest_ge [OF this] j show ?thesis by simp
      qed
    qed
    with sp show ?thesis by simp
  qed
  from step inv' keep bound show ?thesis by (intro exI [of _ ?s']) simp
qed


lemma rounded_run:
  "rounded_layout s \<Longrightarrow> \<forall>p\<in>set ps. positive_finite (ratio p) \<Longrightarrow>
   fst (forEach_addPhotoToColumns ps s) = Normal
   \<and> (PInf \<in> set (columnHeights s)
        \<longrightarrow> PInf \<in> set (columnHeights (snd (forEach_addPhotoToColumns ps s))))
   \<and> (PInf \<notin> set (columnHeights (snd (forEach_addPhotoToColumns ps s))) \<longrightarrow>
        highest (columnHeights s) \<le> highest (columnHeights (snd (forEach_addPhotoToColumns ps s)))
        \<and> spread (columnHeights (snd (forEach_addPhotoToColumns ps s)))
            \<le> Max (insert (spread (columnHeights s))
                  ((\<lambda>p. num_val (contribution p)
                          + highest (columnHeights (snd (forEach_addPhotoToColumns ps s))) / 2 ^ 53)
                   ` set ps)))"
proof (induction ps arbitrary: s)
  case Nil
  show ?case by simp
next
  case (Cons p ps)
  from Cons.prems(2) have pos: "positive_finite (ratio p)" by simp
  from rounded_step [OF Cons.prems(1) pos] obtain s'
    where s': "addPhotoToColumns p s = (Normal, s')" "rounded_layout s'"
      and keep: "PInf \<in> set (columnHeights s) \<longrightarrow> PInf \<in> set (columnHeights s')"
      and bound: "PInf \<notin> set (columnHeights s') \<longrightarrow>
                highest (columnHeights s) \<le> highest (columnHeights s')
                \<and> spread (columnHeights s')
                    \<le> max (spread (columnHeights s))
                          (num_val (contribution p) + highest (columnHeights s') / 2 ^ 53)"
    by blast
  let ?t = "snd (forEach_addPhotoToColumns ps s')"
  have fe: "forEach_addPhotoToColumns (p # ps) s = forEach_addPhotoToColumns ps s'"
    using s'(1) by simp
  from Cons.IH [OF s'(2)] Cons.prems(2)
  have n: "fst (forEach_addPhotoToColumns ps s') = Normal"
    and keep': "PInf \<in> set (columnHeights s') \<longrightarrow> PInf \<in> set (columnHeights ?t)"
    and bound': "PInf \<notin> set (columnHeights ?t) \<longrightarrow>
        highest (columnHeights s') \<le> highest (columnHeights ?t)
        \<and> spread (columnHeights ?t)
            \<le> Max (insert (spread (columnHeights s'))
                  ((\<lambda>p. num_val (contribution p) + highest (columnHeights ?t) / 2 ^ 53) ` set ps))"
    by auto
  let ?f = "\<lambda>p. num_val (contribution p) + highest (columnHeights ?t) / 2 ^ 53"
  let ?D = "insert (spread (columnHeights s)) (insert (?f p) (?f ` set ps))"
  have b: "highest (columnHeights s) \<le> highest (columnHeights ?t)
           \<and> spread (columnHeights ?t) \<le> Max ?D"
    if fin: "PInf \<notin> set (columnHeights ?t)"
  proof -
    from fin keep' have fin': "PInf \<notin> set (columnHeights s')" by auto
    from bound fin' have h1: "highest (columnHeights s) \<le> highest (columnHeights s')"
      and sp1: "spread (columnHeights s')
                  \<le> max (spread (columnHeights s))
                        (num_val (contribution p) + highest (columnHeights s') / 2 ^ 53)" by auto
    from bound' fin have h2: "highest (columnHeights s') \<le> highest (columnHeights ?t)"
      and sp2: "spread (columnHeights ?t)
                  \<le> Max (insert (spread (columnHeights s')) (?f ` set ps))" by auto
    have "Max (insert (spread (columnHeights s')) (?f ` set ps)) \<le> Max ?D"
    proof (rule Max.boundedI)
      show "finite (insert (spread (columnHeights s')) (?f ` set ps))" by simp
      show "insert (spread (columnHeights s')) (?f ` set ps) \<noteq> {}" by simp
      fix a assume a: "a \<in> insert (spread (columnHeights s')) (?f ` set ps)"
      have "spread (columnHeights s) \<le> Max ?D" by (rule Max_ge) simp_all
      moreover have "?f p \<le> Max ?D" by (rule Max_ge) simp_all
      moreover have "num_val (contribution p) + highest (columnHeights s') / 2 ^ 53 \<le> ?f p"
        using h2 by (simp add: divide_right_mono)
      ultimately have "spread (columnHeights s') \<le> Max ?D" using sp1 by linarith
      moreover have "a \<le> Max ?D" if "a \<in> ?f ` set ps" using that by (intro Max_ge) simp_all
      ultimately show "a \<le> Max ?D" using a by auto
    qed
    with sp2 have "spread (columnHeights ?t) \<le> Max ?D" by (rule order_trans)
    with h1 h2 show ?thesis by simp
  qed
  have D: "insert (spread (columnHeights s)) (?f ` set (p # ps)) = ?D" by simp
  from n keep keep' b show ?case unfolding fe D by blast
qed

lemma rounded_layout_empty: "0 < n \<Longrightarrow> rounded_layout (empty_columns n s)"
  by (auto simp: rounded_layout_def empty_columns_def nonneg_double_def fl_def)

section \<open>Properties of requests and tasks\<close>

lemma reset_eq:
  "reset s = (Normal, s\<lparr>photos := [], pagination := Map.empty,
                         columns := replicate (nat (columnCount s)) [],
                         columnHeights := replicate (nat (columnCount s)) (Fin 0)\<rparr>)"
  by (simp add: reset_def resetColumns_def Let_def)

lemma checkStatus_cases:
  "checkStatus r s = (Resolved, s) \<and> 200 \<le> status r \<and> status r < 300
   \<or> checkStatus r s = (Rejected, s) \<and> \<not> (200 \<le> status r \<and> status r < 300)
   \<or> (\<exists>e. checkStatus r s = (Rejected, s\<lparr>error := e\<rparr>) \<and> truthy e
          \<and> \<not> (200 \<le> status r \<and> status r < 300))"
  by (auto simp: checkStatus_def Let_def truthy_def status_message_def rate_limit_message_def
           split: option.splits)


lemma addPhoto_pagination:
  "addPhoto cv x (s\<lparr>pagination := m\<rparr>)
     = (fst (addPhoto cv x s), (snd (addPhoto cv x s))\<lparr>pagination := m\<rparr>)"
  by (simp add: addPhoto_def addPhotoToColumns_def Let_def split: option.splits)


lemma forEach_addPhoto_pagination:
  "forEach_addPhoto cv xs (s\<lparr>pagination := m\<rparr>)
     = (fst (forEach_addPhoto cv xs s), (snd (forEach_addPhoto cv xs s))\<lparr>pagination := m\<rparr>)"
proof (induction xs arbitrary: s)
  case Nil
  show ?case by simp
next
  case (Cons x xs)
  obtain c s' where step: "addPhoto cv x s = (c, s')" by (cases "addPhoto cv x s")
  with Cons.IH [of s'] show ?case
    by (cases c) (simp_all add: addPhoto_pagination)
qed


lemma addPhotosFromResponse_pagination:
  "addPhotosFromResponse cv j (s\<lparr>pagination := m\<rparr>)
     = (fst (addPhotosFromResponse cv j s), (snd (addPhotosFromResponse cv j s))\<lparr>pagination := m\<rparr>)"
  by (simp add: addPhotosFromResponse_def forEach_addPhoto_pagination
        split: option.splits jsval.splits)


lemma link_entries_None:
  "link_entries es m = None \<longleftrightarrow> (\<exists>e\<in>set es. linkRegex_exec e = None)"
  by (induction es arbitrary: m) (auto split: option.splits)

lemma extractPagination_unmatched:
  assumes "headers r ''link'' = Some link" "link \<noteq> []"
      and "\<exists>e\<in>set (split_comma link). linkRegex_exec e = None"
  shows "extractPagination r s = (Thrown, s)"
proof -
  from assms(3) have "link_entries (split_comma link) Map.empty = None"
    by (simp add: link_entries_None)
  with assms(1,2) show ?thesis by (simp add: extractPagination_def)
qed

lemma checkStatus_ok:
  "200 \<le> status r \<Longrightarrow> status r < 300 \<Longrightarrow> checkStatus r s = (Resolved, s)"
  by (simp add: checkStatus_def)

lemma rate_limit_message_recorded:
  assumes "status r = 403" and "headers r ''x-ratelimit-remaining'' = Some ''0''"
      and "headers r ''content-type'' \<noteq> Some ''application/json''
           \<or> Option.bind (body_json r) (\<lambda>json. Option.bind (get_prop json ''errors'') index0) \<noteq> None"
  shows "error (snd (makeRequest_settle cv (Response r) (makeRequest_send u s)))
           = JStr rate_limit_message"
  using assms
  by (auto simp: makeRequest_settle_def request_chain_def checkStatus_def Let_def truthy_def
        rate_limit_message_def split: option.splits)



lemma updateSearch_new_term:
  assumes "term \<noteq> searchTerm s" "term \<noteq> []"
  shows "search_task (snd (updateSearch term s)) = Debouncing term DEBOUNCE_MS"
        "requests (snd (updateSearch term s)) = requests s"
        "applicationId (snd (updateSearch term s)) = applicationId s"
        "searchTerm (snd (updateSearch term s)) = term"
  using assms by (simp_all add: updateSearch_def Let_def search_perform_def reset_eq)

lemma elapse_waiting:
  assumes "search_task s = Debouncing term left" "ms < left"
  shows "requests (elapse ms s) = requests s" "applicationId (elapse ms s) = applicationId s"
        "searchTerm (elapse ms s) = searchTerm s"
        "\<exists>l. search_task (elapse ms s) = Debouncing term l"
  using assms by (simp_all add: elapse_def)

lemma elapse_fires:
  assumes "search_task s = Debouncing term left" "left \<le> ms"
  shows "requests (elapse ms s) = requests s @
           [\<lparr>url = API_URL @ ''/search/photos?query='' @ term @ ''&per_page=30'',
             authorization = ''Client-ID '' @ applicationId s, accept_version = API_VERSION\<rparr>]"
  using assms by (simp add: elapse_def makeRequest_send_def url_text_def)

lemma updateSearch_restarts:
  assumes "term \<noteq> searchTerm s" "term \<noteq> []"
  shows "search_task (snd (updateSearch term s)) = Debouncing term DEBOUNCE_MS
         \<and> requests (snd (updateSearch term s)) = requests s
         \<and> applicationId (snd (updateSearch term s)) = applicationId s
         \<and> searchTerm (snd (updateSearch term s)) = term"
  using updateSearch_new_term [OF assms] by simp




lemma without_pagination_update [simp]:
  "without_pagination (s\<lparr>pagination := m\<rparr>) = without_pagination s"
  by (simp add: without_pagination_def)

lemma without_pagination_error [simp]:
  "without_pagination (s\<lparr>error := e\<rparr>) = (without_pagination s)\<lparr>error := e\<rparr>"
  "error (without_pagination s) = error s"
  by (simp_all add: without_pagination_def)






lemma addPhoto_instances:
  "task_instances (snd (addPhoto cv x s)) = task_instances s"
  "loading_instance (snd (addPhoto cv x s)) = loading_instance s"
  "search_instance (snd (addPhoto cv x s)) = search_instance s"
  by (simp_all add: addPhoto_def addPhotoToColumns_def Let_def split: option.splits)

lemma forEach_addPhoto_instances:
  "task_instances (snd (forEach_addPhoto cv xs s)) = task_instances s
   \<and> loading_instance (snd (forEach_addPhoto cv xs s)) = loading_instance s
   \<and> search_instance (snd (forEach_addPhoto cv xs s)) = search_instance s"
proof (induction xs arbitrary: s)
  case Nil
  show ?case by simp
next
  case (Cons x xs)
  obtain c s' where step: "addPhoto cv x s = (c, s')" by (cases "addPhoto cv x s")
  with addPhoto_instances [of cv x s]
  have "task_instances s' = task_instances s \<and> loading_instance s' = loading_instance s
        \<and> search_instance s' = search_instance s" by simp
  with Cons.IH [of s'] step show ?case by (cases c) simp_all
qed

lemma request_chain_instances:
  "task_instances (snd (request_chain cv result s)) = task_instances s
   \<and> loading_instance (snd (request_chain cv result s)) = loading_instance s
   \<and> search_instance (snd (request_chain cv result s)) = search_instance s"
proof (cases result)
  case NetworkFailure
  then show ?thesis by (simp add: request_chain_def)
next
  case (Response r)
  obtain c s1 where cs: "checkStatus r s = (c, s1)" by (cases "checkStatus r s")
  then have s1: "task_instances s1 = task_instances s" "loading_instance s1 = loading_instance s"
    "search_instance s1 = search_instance s"
    by (auto simp: checkStatus_def Let_def split: if_splits option.splits)
  obtain d s2 where x: "extractPagination r s1 = (d, s2)" by (cases "extractPagination r s1")
  then have s2: "task_instances s2 = task_instances s1" "loading_instance s2 = loading_instance s1"
    "search_instance s2 = search_instance s1"
    by (auto simp: extractPagination_def split: if_splits option.splits)
  have s3: "task_instances (snd (addPhotosFromResponse cv j s2)) = task_instances s2
            \<and> loading_instance (snd (addPhotosFromResponse cv j s2)) = loading_instance s2
            \<and> search_instance (snd (addPhotosFromResponse cv j s2)) = search_instance s2" for j
    by (simp add: addPhotosFromResponse_def forEach_addPhoto_instances
          split: option.splits jsval.splits)
  show ?thesis
  proof (cases c)
    case Rejected
    with Response cs s1 show ?thesis by (simp add: request_chain_def)
  next
    case Resolved
    show ?thesis
    proof (cases d)
      case Thrown
      with Response cs Resolved x s1 s2 show ?thesis by (simp add: request_chain_def)
    next
      case Normal
      show ?thesis
      proof (cases "body_json r")
        case None
        with Response cs Resolved x Normal s1 s2 show ?thesis by (simp add: request_chain_def)
      next
        case (Some j)
        obtain e s3' where a: "addPhotosFromResponse cv j s2 = (e, s3')"
          by (cases "addPhotosFromResponse cv j s2")
        with s3 [of j] s1 s2 have "task_instances s3' = task_instances s
            \<and> loading_instance s3' = loading_instance s \<and> search_instance s3' = search_instance s"
          by simp
        with Response cs Resolved x Normal Some a show ?thesis
          by (cases e) (simp_all add: request_chain_def)
      qed
    qed
  qed
qed

lemma makeRequest_settle_instances:
  "task_instances (snd (makeRequest_settle cv result s)) = task_instances s"
  "loading_instance (snd (makeRequest_settle cv result s)) = loading_instance s"
  "search_instance (snd (makeRequest_settle cv result s)) = search_instance s"
proof -
  obtain c t where a: "request_chain cv result s = (c, t)" by (cases "request_chain cv result s")
  with request_chain_instances [of cv result s]
  have "task_instances t = task_instances s \<and> loading_instance t = loading_instance s
        \<and> search_instance t = search_instance s" by simp
  with a show "task_instances (snd (makeRequest_settle cv result s)) = task_instances s"
    "loading_instance (snd (makeRequest_settle cv result s)) = loading_instance s"
    "search_instance (snd (makeRequest_settle cv result s)) = search_instance s"
    by (cases c; simp add: makeRequest_settle_def)+
qed

lemma makeRequest_settle_resolved: "fst (makeRequest_settle cv result s) = Resolved"
  by (cases "request_chain cv result s"; cases "fst (request_chain cv result s)")
     (simp_all add: makeRequest_settle_def)


lemma loading_settle_eq:
  "loading_settle cv result s =
     (Resolved, (snd (makeRequest_settle cv result s))
        \<lparr>loadingTasks_running := False,
         task_instances := (task_instances s)[loading_instance s := Finished Resolved]\<rparr>)"
  using makeRequest_settle_resolved [of cv result s]
  by (cases "makeRequest_settle cv result s")
     (simp add: loading_settle_def makeRequest_settle_instances [of cv result s, symmetric]
        del: makeRequest_settle_instances)








lemma loadNextPage_while_searching:
  "search_task s \<noteq> Idle \<Longrightarrow> loadNextPage s = (Nothing, s)"
  by (simp add: loadNextPage_def)


section \<open>Evaluation on the example data\<close>

lemma mul300_one: "js_mul300 (Fin 1) = Fin 300"
  by code_simp

lemma mul300_half: "js_mul300 (Fin (1 / 2)) = Fin 150"
  by code_simp

lemma mul300_tall:
  "js_mul300 (Fin (2573485501354569 / 2251799813685248)) = Fin (6031606643799771 / 17592186044416)"
  by code_simp

lemma add_0_300: "js_add (Fin 0) (Fin 300) = Fin 300"
  by code_simp

lemma add_0_150: "js_add (Fin 0) (Fin 150) = Fin 150"
  by code_simp

lemma add_150_300: "js_add (Fin 150) (Fin 300) = Fin 450"
  by code_simp

lemma add_300_tall:
  "js_add (Fin 300) (Fin (6031606643799771 / 17592186044416)) = Fin (2827315614281143 / 4398046511104)"
  by code_simp

lemma add_0_tall:
  "js_add (Fin 0) (Fin (6031606643799771 / 17592186044416)) = Fin (6031606643799771 / 17592186044416)"
  by code_simp

lemma div_square: "js_div (Fin 3000) (Fin 3000) = Fin 1"
  by code_simp

lemma div_tall: "js_div (Fin 3200) (Fin 2800) = Fin (2573485501354569 / 2251799813685248)"
  by code_simp

lemma div_sizeless: "js_div (Fin 0) (Fin 0) = NaN"
  by (simp add: js_div_def is_inf_def is_zero_def)

lemma add_0_NaN: "js_add (Fin 0) NaN = NaN"
  by (simp add: js_add_def)

lemmas arithmetic_facts =
  mul300_one mul300_half mul300_tall add_0_300 add_0_150 add_150_300 add_300_tall add_0_tall
  div_square div_tall div_sizeless add_0_NaN

lemma key_less_Fin: "num_key (Fin a) < num_key (Fin b) \<longleftrightarrow> a < b"
  by (auto simp: num_key_def less_prod_def)

lemma key_less_PInf: "num_key (Fin a) < num_key PInf" "\<not> num_key PInf < num_key (Fin a)"
  by (auto simp: num_key_def less_prod_def)

lemma strict_eq_simps:
  "strict_eq (Fin a) (Fin b) \<longleftrightarrow> a = b" "\<not> strict_eq x NaN" "\<not> strict_eq NaN x"
  "\<not> strict_eq (Fin a) PInf"
  by (auto simp: strict_eq_def is_zero_def)

lemmas layout_eval =
  addPhotoToColumns_def Math_min_def Let_def key_less_Fin key_less_PInf strict_eq_simps
  empty_columns_def contribution_def

lemma init_eq:
  "init a = \<lparr>columnCount = 3, columns = [[], [], []], error = JStr '''', photos = [],
             searchTerm = '''', columnHeights = [Fin 0, Fin 0, Fin 0], pagination = Map.empty,
             lastRequestUrl = None, applicationId = a, search_task = Idle,
             loadingTasks_running = False, requests = [], task_instances = [],
             loading_instance = 0, search_instance = 0\<rparr>"
  by (simp add: init_def reset_eq numeral_3_eq_3)

lemma ratio_of_examples:
  "ratio_of cv (source square_photo) = Some (Fin 1)"
  "ratio_of cv (source tall_photo) = Some (ratio tall_photo)"
  "ratio_of cv sizeless_json = Some NaN"
  by (simp_all add: ratio_of_def get_prop_def to_number_def square_photo_def tall_photo_def
        sizeless_json_def arithmetic_facts)

lemma ratio_examples:
  "ratio square_photo = Fin 1" "ratio wide_photo = Fin (1 / 2)"
  "ratio tall_photo = Fin (2573485501354569 / 2251799813685248)"
  by (simp_all add: square_photo_def wide_photo_def tall_photo_def)

lemma one_photo_state_eq:
  "one_photo_state = (init '''')\<lparr>photos := [square_photo],
      columnHeights := [Fin 300, Fin 0, Fin 0], columns := [[square_photo], [], []]\<rparr>"
proof -
  have p: "\<lparr>source = source square_photo, ratio = Fin 1\<rparr> = square_photo"
    by (simp add: square_photo_def)
  show ?thesis
    by (simp add: one_photo_state_def addPhoto_def ratio_of_examples p init_eq layout_eval
          arithmetic_facts ratio_examples)
qed

lemma line_terminator_simps:
  "\<not> line_terminator CHR ''<''" "\<not> line_terminator CHR ''>''" "\<not> line_terminator CHR '';''"
  "\<not> line_terminator CHR '' ''" "\<not> line_terminator CHR ''=''" "\<not> line_terminator CHR 0x22"
  "\<not> line_terminator CHR ''/''" "\<not> line_terminator CHR '':''" "\<not> line_terminator CHR ''.''"
  "\<not> line_terminator CHR ''?''"
  by (simp_all add: line_terminator_def)

lemma linkRegex_unquoted: "linkRegex_exec ''<u>; rel=next'' = None"
  by (simp add: line_terminator_def rel_opening_def match_rel_def)


lemma split_comma_examples:
  "split_comma next_link = [next_link]" "split_comma ''<u>; rel=next'' = [''<u>; rel=next'']"
  by (simp_all add: next_link_def)


lemma status_message_404:
  "status_message 404 = ''Error 404: Uh-oh! Trouble reaching the Unsplash API''"
  by code_simp
lemma rounded_example_heights:
  "columnHeights (snd (forEach_addPhotoToColumns
       [square_photo, square_photo, square_photo, tall_photo] (empty_columns 3 (init ''''))))
     = [Fin (2827315614281143 / 4398046511104), Fin 300, Fin 300]"
  by (simp add: init_eq layout_eval arithmetic_facts numeral_3_eq_3
        square_photo_def tall_photo_def)

lemma searching_state_eq:
  "searching_state = (init '''')\<lparr>photos := [square_photo],
      columnHeights := [Fin 300, Fin 0, Fin 0], columns := [[square_photo], [], []],
      searchTerm := ''a'', lastRequestUrl := Some (API_URL @ ''/photos?per_page=30''),
      requests := [\<lparr>url = API_URL @ ''/photos?per_page=30'', authorization = ''Client-ID '',
                    accept_version = API_VERSION\<rparr>],
      search_task := Debouncing ''a'' DEBOUNCE_MS, search_instance := 1,
      task_instances := [Finished Resolved, Running]\<rparr>"
proof -
  have p: "\<lparr>source = source square_photo, ratio = Fin 1\<rparr> = square_photo"
    by (simp add: square_photo_def)
  have j: "get_prop (JArr [source square_photo]) ''results'' = Some JUndefined"
    by (simp add: get_prop_def)
  show ?thesis
    by (simp add: searching_state_def loading_settle_eq makeRequest_settle_def request_chain_def
          checkStatus_def extractPagination_def one_photo_page_def addPhotosFromResponse_def j
          truthy_def addPhoto_def ratio_of_examples p layout_eval arithmetic_facts ratio_examples
          updateSearch_def search_perform_def loadNew_def reset_eq loadNew_perform_def
          perform_loading_def makeRequest_send_def url_text_def init_eq numeral_3_eq_3)
qed

section \<open>The claims\<close>

text \<open>
  C1. When photos with positive, finite ratios are added one by one to columns whose
  heights start at zero, the distance between the highest and the lowest column is,
  after every addition that leaves every height finite, at most the largest height
  added by one photo so far plus the rounding error of one addition, which is at most
  \<open>2\<^sup>-\<^sup>5\<^sup>3\<close> times the height of the highest column. The bound is shown for every
  non-empty prefix \<open>take k ps\<close> of a sequence \<open>ps\<close>; a height that has overflowed to
  \<open>+Infinity\<close> stays there, and the distance is then no finite number.
\<close>

theorem spread_within_largest_contribution:
  assumes "0 < n" and "\<forall>p\<in>set ps. positive_finite (ratio p)"
      and "0 < k" and "k \<le> length ps"
      and "PInf \<notin> set (columnHeights (snd (forEach_addPhotoToColumns (take k ps) (empty_columns n s))))"
  shows "fst (forEach_addPhotoToColumns (take k ps) (empty_columns n s)) = Normal
         \<and> spread (columnHeights (snd (forEach_addPhotoToColumns (take k ps) (empty_columns n s))))
             \<le> largest_contribution (take k ps)
                + highest (columnHeights (snd (forEach_addPhotoToColumns (take k ps) (empty_columns n s))))
                  / 2 ^ 53"
proof -
  let ?e = "empty_columns n s" and ?qs = "take k ps"
  let ?t = "snd (forEach_addPhotoToColumns ?qs ?e)"
  let ?C = "set (map (\<lambda>p. num_val (contribution p)) ?qs)"
  let ?f = "\<lambda>p. num_val (contribution p) + highest (columnHeights ?t) / 2 ^ 53"
  have inv: "rounded_layout ?e" using assms(1) by (rule rounded_layout_empty)
  have pos: "\<forall>p\<in>set ?qs. positive_finite (ratio p)"
    using assms(2) by (auto dest: in_set_takeD)
  from rounded_run [OF inv pos] assms(5)
  have n: "fst (forEach_addPhotoToColumns ?qs ?e) = Normal"
    and h: "highest (columnHeights ?e) \<le> highest (columnHeights ?t)"
    and b: "spread (columnHeights ?t) \<le> Max (insert (spread (columnHeights ?e)) (?f ` set ?qs))"
    by auto
  have z: "spread (columnHeights ?e) = 0"
    using assms(1) by (simp add: empty_columns_def spread_zero)
  have z': "highest (columnHeights ?e) = 0"
    using assms(1) by (simp add: empty_columns_def highest_def num_val_def)
  from assms(3,4) have ne: "?qs \<noteq> []" by auto
  then obtain q where q: "q \<in> set ?qs" by (cases ?qs) auto
  have cpos: "0 \<le> num_val (contribution q)"
  proof (cases "contribution q")
    case (Fin c)
    with positive_contribution [of q c] pos q show ?thesis by (simp add: num_val_def)
  qed (simp_all add: num_val_def)
  have top: "num_val (contribution q) \<le> largest_contribution ?qs"
    unfolding largest_contribution_def using q by (intro Max_ge) simp_all
  have "Max (insert (spread (columnHeights ?e)) (?f ` set ?qs))
          \<le> largest_contribution ?qs + highest (columnHeights ?t) / 2 ^ 53"
  proof (rule Max.boundedI)
    show "finite (insert (spread (columnHeights ?e)) (?f ` set ?qs))" by simp
    show "insert (spread (columnHeights ?e)) (?f ` set ?qs) \<noteq> {}" by simp
    fix a assume a: "a \<in> insert (spread (columnHeights ?e)) (?f ` set ?qs)"
    have "0 \<le> largest_contribution ?qs + highest (columnHeights ?t) / 2 ^ 53"
      using cpos top h z' by simp
    moreover have "?f p \<le> largest_contribution ?qs + highest (columnHeights ?t) / 2 ^ 53"
      if "p \<in> set ?qs" for p
    proof -
      have "num_val (contribution p) \<le> largest_contribution ?qs"
        unfolding largest_contribution_def using that by (intro Max_ge) simp_all
      then show ?thesis by simp
    qed
    ultimately show "a \<le> largest_contribution ?qs + highest (columnHeights ?t) / 2 ^ 53"
      using a z by auto
  qed
  with b have "spread (columnHeights ?t)
          \<le> largest_contribution ?qs + highest (columnHeights ?t) / 2 ^ 53" by (rule order_trans)
  with n show ?thesis by simp
qed

theorem spread_within_largest_contribution_witness:
  "0 < (3::nat)
   \<and> positive_finite (ratio square_photo) \<and> positive_finite (ratio tall_photo)
   \<and> PInf \<notin> set (columnHeights (snd (forEach_addPhotoToColumns
         (take 4 [square_photo, square_photo, square_photo, tall_photo])
         (empty_columns 3 (init '''')))))
   \<and> spread (columnHeights (snd (forEach_addPhotoToColumns
         (take 4 [square_photo, square_photo, square_photo, tall_photo])
         (empty_columns 3 (init '''')))))
       \<le> largest_contribution (take 4 [square_photo, square_photo, square_photo, tall_photo])
         + highest (columnHeights (snd (forEach_addPhotoToColumns
             (take 4 [square_photo, square_photo, square_photo, tall_photo])
             (empty_columns 3 (init ''''))))) / 2 ^ 53"
proof -
  let ?ps = "[square_photo, square_photo, square_photo, tall_photo]"
  have n: "0 < (3::nat)" by simp
  have p: "\<forall>p\<in>set ?ps. positive_finite (ratio p)"
    by (simp add: positive_finite_def square_photo_def tall_photo_def)
  have k: "0 < (4::nat)" "4 \<le> length ?ps" by simp_all
  have t: "take 4 ?ps = ?ps" by simp
  have f: "PInf \<notin> set (columnHeights (snd (forEach_addPhotoToColumns (take 4 ?ps)
                                             (empty_columns 3 (init '''')))))"
    unfolding t rounded_example_heights by simp
  from spread_within_largest_contribution [OF n p k f] n p f show ?thesis by simp
qed

text \<open>
  With rounding the bound fails. Three square photos bring the three columns to 300;
  a photo of 2800 by 3200 then adds the double nearest to \<open>300 * (3200 / 2800)\<close> to the
  first, and the sum is rounded up, so that the first column exceeds the others by more
  than the height just added.
\<close>

theorem spread_exceeds_largest_contribution_counterexample:
  "positive_finite (ratio square_photo) \<and> positive_finite (ratio tall_photo)
   \<and> \<not> spread (columnHeights (snd (forEach_addPhotoToColumns
           [square_photo, square_photo, square_photo, tall_photo] (empty_columns 3 (init '''')))))
         \<le> largest_contribution [square_photo, square_photo, square_photo, tall_photo]"
proof -
  have l: "largest_contribution [square_photo, square_photo, square_photo, tall_photo]
           = 6031606643799771 / 17592186044416"
    by (simp add: largest_contribution_def contribution_def arithmetic_facts num_val_def
          square_photo_def tall_photo_def)
  show ?thesis
    unfolding rounded_example_heights l
    by (simp add: spread_def num_val_def positive_finite_def square_photo_def tall_photo_def)
qed

text \<open>
  C2. In a state that has a column, a height for every column, no \<open>NaN\<close> height and
  every photo of the flat list in exactly one column, adding a photo appends it to the
  flat list and to exactly one column: no column is lower than that one and every
  column before it is higher. Unless the addition makes a height \<open>NaN\<close>, the state
  reached has the same properties again; the state after \<open>init\<close> has them, so they
  hold after any sequence of additions in which no height becomes \<open>NaN\<close>.
\<close>

theorem addPhoto_places_in_lowest_column:
  assumes "balanced s" and "ratio_of cv x = Some r"
  shows "\<exists>i<length (columns s).
           addPhoto cv x s =
             (Normal, s\<lparr>photos := photos s @ [\<lparr>source = x, ratio = r\<rparr>],
                        columnHeights := (columnHeights s)
                          [i := js_add (columnHeights s ! i) (js_mul300 r)],
                        columns := (columns s)[i := columns s ! i @ [\<lparr>source = x, ratio = r\<rparr>]]\<rparr>)
         \<and> (\<forall>j<length (columnHeights s). \<not> js_less (columnHeights s ! j) (columnHeights s ! i))
         \<and> (\<forall>j<i. js_less (columnHeights s ! i) (columnHeights s ! j))
         \<and> (NaN \<notin> set (columnHeights (snd (addPhoto cv x s))) \<longrightarrow>
              balanced (snd (addPhoto cv x s)))"
proof -
  let ?p = "\<lparr>source = x, ratio = r\<rparr>"
  let ?s = "s\<lparr>photos := photos s @ [?p]\<rparr>"
  from balanced_min_index [OF assms(1)] obtain i where
    i: "indexOf (columnHeights s) (Math_min (columnHeights s)) = Some i" "i < length (columns s)"
    and m: "\<forall>j<length (columnHeights s). \<not> js_less (columnHeights s ! j) (columnHeights s ! i)"
    and l: "\<forall>j<i. js_less (columnHeights s ! i) (columnHeights s ! j)" by blast
  have i': "indexOf (columnHeights ?s) (Math_min (columnHeights ?s)) = Some i" "i < length (columns ?s)"
    using i by simp_all
  have e: "addPhoto cv x s = addPhotoToColumns ?p ?s"
    using assms(2) by (simp add: addPhoto_def)
  have "balanced (snd (addPhotoToColumns ?p ?s))"
    if "NaN \<notin> set (columnHeights (snd (addPhotoToColumns ?p ?s)))"
    using assms(1) that by (intro addPhotoToColumns_balanced [OF _ _ _ i']) (auto simp: balanced_def)
  with e addPhotoToColumns_Some [OF i', of ?p] i m l show ?thesis by auto
qed

theorem addPhoto_places_in_lowest_column_witness:
  "balanced (init '''') \<and> ratio_of cv_nan (source tall_photo) = Some (ratio tall_photo)
   \<and> NaN \<notin> set (columnHeights (snd (addPhoto cv_nan (source tall_photo) (init ''''))))
   \<and> balanced (snd (addPhoto cv_nan (source tall_photo) (init '''')))"
proof -
  have b: "balanced (init '''')" by (simp add: balanced_def init_eq)
  have r: "ratio_of cv_nan (source tall_photo) = Some (ratio tall_photo)"
    by (rule ratio_of_examples)
  have h: "columnHeights (snd (addPhoto cv_nan (source tall_photo) (init '''')))
             = [Fin (6031606643799771 / 17592186044416), Fin 0, Fin 0]"
    by (simp add: addPhoto_def r init_eq layout_eval ratio_examples arithmetic_facts)
  have n: "NaN \<notin> set (columnHeights (snd (addPhoto cv_nan (source tall_photo) (init ''''))))"
    unfolding h by simp
  from addPhoto_places_in_lowest_column [OF b r] b r n show ?thesis by blast
qed

text \<open>
  A photo without a size has the ratio \<open>0 / 0\<close>. It makes the height of its column
  \<open>NaN\<close>, after which no column is found for the next photo: that photo is in the flat
  list and in no column.
\<close>

theorem photo_in_no_column_counterexample:
  "mset (concat (columns (snd (forEach_addPhoto cv_nan [sizeless_json, source square_photo]
                               (init ''''))))) \<noteq>
   mset (photos (snd (forEach_addPhoto cv_nan [sizeless_json, source square_photo] (init ''''))))"
proof -
  let ?s = "snd (forEach_addPhoto cv_nan [sizeless_json, source square_photo] (init ''''))"
  have c: "columns ?s = [[\<lparr>source = sizeless_json, ratio = NaN\<rparr>], [], []]"
    by (simp add: addPhoto_def ratio_of_examples init_eq layout_eval arithmetic_facts
          js_mul300_def)
  have p: "length (photos ?s) = 2"
    by (simp add: addPhoto_def ratio_of_examples init_eq layout_eval arithmetic_facts
          js_mul300_def)
  have "size (mset (concat (columns ?s))) \<noteq> size (mset (photos ?s))"
    unfolding c size_mset p by simp
  then show ?thesis by metis
qed




text \<open>
  C4. Whatever the credential and the answer, \<open>sendTestRequest\<close> leaves the photo
  list, the columns, their heights, the pagination state and the search term as they
  were; its promise resolves exactly when the status is from 200 to 299, and the error
  message is as it was when the promise resolves and when no response arrives.
\<close>

theorem sendTestRequest_frame:
  "photos (snd (sendTestRequest_settle result (sendTestRequest_send testId s))) = photos s
   \<and> columns (snd (sendTestRequest_settle result (sendTestRequest_send testId s))) = columns s
   \<and> columnHeights (snd (sendTestRequest_settle result (sendTestRequest_send testId s))) = columnHeights s
   \<and> pagination (snd (sendTestRequest_settle result (sendTestRequest_send testId s))) = pagination s
   \<and> searchTerm (snd (sendTestRequest_settle result (sendTestRequest_send testId s))) = searchTerm s
   \<and> (fst (sendTestRequest_settle result (sendTestRequest_send testId s)) = Resolved)
       = (case result of NetworkFailure \<Rightarrow> False
          | Response r \<Rightarrow> 200 \<le> status r \<and> status r < 300)
   \<and> (fst (sendTestRequest_settle result (sendTestRequest_send testId s)) = Resolved
        \<or> result = NetworkFailure \<longrightarrow>
      error (snd (sendTestRequest_settle result (sendTestRequest_send testId s))) = error s)"
proof (cases result)
  case NetworkFailure
  then show ?thesis by (simp add: sendTestRequest_settle_def sendTestRequest_send_def)
next
  case (Response r)
  from checkStatus_cases [of r "sendTestRequest_send testId s"] Response show ?thesis
    by (auto simp: sendTestRequest_settle_def sendTestRequest_send_def)
qed

theorem sendTestRequest_frame_witness:
  "fst (sendTestRequest_settle (Response empty_page) (sendTestRequest_send ''key'' (init '''')))
     = Resolved
   \<and> error (snd (sendTestRequest_settle (Response empty_page)
                  (sendTestRequest_send ''key'' (init '''')))) = error (init '''')"
proof -
  have r: "fst (sendTestRequest_settle (Response empty_page) (sendTestRequest_send ''key'' (init '''')))
             = Resolved"
    by (simp add: sendTestRequest_settle_def checkStatus_def empty_page_def)
  with sendTestRequest_frame [of "Response empty_page" "''key''" "init ''''"] show ?thesis
    by blast
qed

text \<open>
  A response with a status outside 200 to 299 goes through \<open>_checkStatus\<close>, which
  sets the error message of the service.
\<close>

theorem sendTestRequest_sets_error_counterexample:
  "error (snd (sendTestRequest_settle (Response not_found)
                 (sendTestRequest_send ''key'' (init '''')))) \<noteq> error (init '''')"
  by (simp add: sendTestRequest_settle_def sendTestRequest_send_def checkStatus_def
        not_found_def init_eq truthy_def status_message_def Let_def)

text \<open>
  C5. The claim is that a response with status 403 and no quota left records the
  rate-limit message whatever its body. The code reads the body first: when the
  response is announced as JSON and its body has no \<open>errors\<close> member (or is not
  JSON), reading the message rejects before the status is looked at, and the \<open>catch\<close>
  of \<open>_makeRequest\<close> records the connection message. The theorem evaluates the
  request at such a response.
\<close>

theorem rate_limit_message_lost:
  "error (snd (makeRequest_settle cv (Response rate_limited) (makeRequest_send u s)))
     = JStr connection_message"
  by (simp add: makeRequest_settle_def request_chain_def checkStatus_def rate_limited_def
        get_prop_def index0_def makeRequest_send_def truthy_def)




text \<open>
  C7. With photos in the list, no \<open>next\<close> entry in the pagination state and the
  \<open>_search\<close> task not running, neither waiting in its debounce \<open>timeout\<close> nor for the
  response to its request, \<open>loadNextPage\<close> returns a rejected promise and leaves the
  state, the record of requests included, as it was.
\<close>

theorem loadNextPage_exhausted:
  assumes "photos s \<noteq> []" and "search_task s = Idle" and "pagination s ''next'' = None"
  shows "loadNextPage s = (Promise_rejected, s)"
  using assms by (simp add: loadNextPage_def)

theorem loadNextPage_exhausted_witness:
  "photos one_photo_state \<noteq> [] \<and> search_task one_photo_state = Idle
   \<and> pagination one_photo_state ''next'' = None
   \<and> loadNextPage one_photo_state = (Promise_rejected, one_photo_state)"
proof -
  have a: "photos one_photo_state \<noteq> []" "search_task one_photo_state = Idle"
    "pagination one_photo_state ''next'' = None"
    by (simp_all add: one_photo_state_eq init_eq)
  from loadNextPage_exhausted [OF a] a show ?thesis by simp
qed

text \<open>
  The task counts as running from \<open>perform\<close> on, before its request is sent. A load
  that is answered while a search waits in its \<open>timeout\<close> leaves a photo in the list
  and no next page; the only request made so far has been answered, no search is under
  way, and \<open>loadNextPage\<close> returns nothing where the claim expects a rejected promise.
\<close>

theorem loadNextPage_during_debounce_counterexample:
  "photos searching_state \<noteq> [] \<and> pagination searching_state ''next'' = None
   \<and> search_task searching_state = Debouncing ''a'' DEBOUNCE_MS
   \<and> requests searching_state =
       [\<lparr>url = API_URL @ ''/photos?per_page=30'', authorization = ''Client-ID '',
         accept_version = API_VERSION\<rparr>]
   \<and> loadNextPage searching_state = (Nothing, searching_state)
   \<and> fst (loadNextPage searching_state) \<noteq> Promise_rejected"
proof -
  have a: "photos searching_state \<noteq> []" "pagination searching_state ''next'' = None"
    "search_task searching_state = Debouncing ''a'' DEBOUNCE_MS"
    "requests searching_state =
       [\<lparr>url = API_URL @ ''/photos?per_page=30'', authorization = ''Client-ID '',
         accept_version = API_VERSION\<rparr>]"
    by (simp_all add: searching_state_eq init_eq)
  from a(3) have "loadNextPage searching_state = (Nothing, searching_state)"
    by (simp add: loadNextPage_def)
  with a show ?thesis by simp
qed




text \<open>
  C9. \<open>updateSearch\<close> called with \<open>a\<close>, \<open>ab\<close> and \<open>abc\<close>, each call less than the
  debounce time after the one before, and then left alone for the debounce time, sends
  one request, the search for \<open>abc\<close>. The state before the first call is any state in
  which no earlier call for the same term \<open>a\<close> waits in its debounce time.
\<close>

theorem debounced_search_sends_last_term:
  assumes d1: "d1 < DEBOUNCE_MS" and d2: "d2 < DEBOUNCE_MS" and d3: "DEBOUNCE_MS \<le> d3"
      and start: "searchTerm s \<noteq> ''a'' \<or> (\<forall>t l. search_task s \<noteq> Debouncing t l)"
  shows "requests (elapse d3 (snd (updateSearch ''abc''
            (elapse d2 (snd (updateSearch ''ab''
              (elapse d1 (snd (updateSearch ''a'' s))))))))) =
         requests s @
           [\<lparr>url = API_URL @ ''/search/photos?query=abc&per_page=30'',
             authorization = ''Client-ID '' @ applicationId s, accept_version = API_VERSION\<rparr>]"
proof -
  let ?s1 = "elapse d1 (snd (updateSearch ''a'' s))"
  have s1: "requests ?s1 = requests s \<and> applicationId ?s1 = applicationId s \<and> searchTerm ?s1 = ''a''"
  proof (cases "searchTerm s = ''a''")
    case True
    then have u: "snd (updateSearch ''a'' s) = s" by (simp add: updateSearch_def)
    from True start have "\<forall>t l. search_task s \<noteq> Debouncing t l" by simp
    then have "elapse d1 s = s" by (cases "search_task s") (simp_all add: elapse_def)
    with u True show ?thesis by simp
  next
    case False
    then have n: "''a'' \<noteq> searchTerm s" by simp
    from updateSearch_restarts [OF n] elapse_waiting [of "snd (updateSearch ''a'' s)" "''a''" DEBOUNCE_MS d1] d1
    show ?thesis by simp
  qed
  let ?u2 = "snd (updateSearch ''ab'' ?s1)"
  have n2: "''ab'' \<noteq> searchTerm ?s1" using s1 by simp
  from updateSearch_restarts [OF n2] s1
  have u2: "search_task ?u2 = Debouncing ''ab'' DEBOUNCE_MS" "requests ?u2 = requests s"
    "applicationId ?u2 = applicationId s" "searchTerm ?u2 = ''ab''" by simp_all
  let ?s2 = "elapse d2 ?u2"
  from elapse_waiting [OF u2(1) d2] u2
  have s2: "requests ?s2 = requests s" "applicationId ?s2 = applicationId s" "searchTerm ?s2 = ''ab''"
    by simp_all
  let ?u3 = "snd (updateSearch ''abc'' ?s2)"
  have n3: "''abc'' \<noteq> searchTerm ?s2" using s2 by simp
  from updateSearch_restarts [OF n3] s2
  have u3: "search_task ?u3 = Debouncing ''abc'' DEBOUNCE_MS" "requests ?u3 = requests s"
    "applicationId ?u3 = applicationId s" by simp_all
  from elapse_fires [OF u3(1) d3] u3 show ?thesis by simp
qed

theorem debounced_search_sends_last_term_witness:
  "100 < DEBOUNCE_MS \<and> 599 < DEBOUNCE_MS \<and> DEBOUNCE_MS \<le> 600 \<and> searchTerm (init ''key'') \<noteq> ''a''
   \<and> requests (elapse 600 (snd (updateSearch ''abc''
         (elapse 599 (snd (updateSearch ''ab''
           (elapse 100 (snd (updateSearch ''a'' (init ''key'')))))))))) =
       [\<lparr>url = API_URL @ ''/search/photos?query=abc&per_page=30'',
         authorization = ''Client-ID key'', accept_version = API_VERSION\<rparr>]"
proof -
  have d: "100 < DEBOUNCE_MS" "599 < DEBOUNCE_MS" "DEBOUNCE_MS \<le> 600"
    by (simp_all add: DEBOUNCE_MS_def)
  have t: "searchTerm (init ''key'') \<noteq> ''a''" by (simp add: init_eq)
  then have t': "searchTerm (init ''key'') \<noteq> ''a''
                 \<or> (\<forall>t l. search_task (init ''key'') \<noteq> Debouncing t l)" by simp
  from debounced_search_sends_last_term [OF d t'] d t show ?thesis by (simp add: init_eq)
qed

text \<open>
  C10. When a response with a status from 200 to 299 has a non-empty Link header one
  of whose comma-separated entries the pattern does not match, the request fails: the
  pagination state, the photo list and the columns stay as they were before the
  request, and the error message is the connection message.
\<close>

theorem unmatched_link_entry_fails_request:
  assumes "200 \<le> status r" and "status r < 300"
      and "headers r ''link'' = Some link" and "link \<noteq> []"
      and "\<exists>e\<in>set (split_comma link). linkRegex_exec e = None"
  shows "fst (request_chain cv (Response r) (makeRequest_send u s)) = Rejected
         \<and> pagination (snd (makeRequest_settle cv (Response r) (makeRequest_send u s))) = pagination s
         \<and> photos (snd (makeRequest_settle cv (Response r) (makeRequest_send u s))) = photos s
         \<and> columns (snd (makeRequest_settle cv (Response r) (makeRequest_send u s))) = columns s
         \<and> error (snd (makeRequest_settle cv (Response r) (makeRequest_send u s)))
             = JStr connection_message"
proof -
  let ?s = "makeRequest_send u s"
  have c: "request_chain cv (Response r) ?s = (Rejected, ?s)"
    using checkStatus_ok [OF assms(1,2), of ?s] extractPagination_unmatched [OF assms(3,4,5), of ?s]
    by (simp add: request_chain_def)
  have e: "\<not> truthy (error ?s)" by (simp add: makeRequest_send_def truthy_def)
  from c e show ?thesis
    by (simp add: makeRequest_settle_def makeRequest_send_def)
qed

theorem unmatched_link_entry_fails_request_witness:
  "200 \<le> status unquoted_link_page \<and> status unquoted_link_page < 300
   \<and> headers unquoted_link_page ''link'' = Some ''<u>; rel=next''
   \<and> linkRegex_exec ''<u>; rel=next'' = None
   \<and> photos (snd (makeRequest_settle cv_nan (Response unquoted_link_page)
                   (makeRequest_send (Some ''u'') (init '''')))) = []
   \<and> error (snd (makeRequest_settle cv_nan (Response unquoted_link_page)
                  (makeRequest_send (Some ''u'') (init '''')))) = JStr connection_message"
proof -
  have a: "200 \<le> status unquoted_link_page" "status unquoted_link_page < 300"
    "headers unquoted_link_page ''link'' = Some ''<u>; rel=next''" "''<u>; rel=next'' \<noteq> []"
    by (simp_all add: unquoted_link_page_def)
  have b: "\<exists>e\<in>set (split_comma ''<u>; rel=next''). linkRegex_exec e = None"
  proof (rule bexI)
    show "linkRegex_exec ''<u>; rel=next'' = None" by (rule linkRegex_unquoted)
    show "''<u>; rel=next'' \<in> set (split_comma ''<u>; rel=next'')"
      unfolding split_comma_examples by (rule list.set_intros)
  qed
  have p: "photos (init '''') = []" by (simp add: init_eq)
  from unmatched_link_entry_fails_request [OF a b, of cv_nan "Some ''u''" "init ''''"] p
  have "photos (snd (makeRequest_settle cv_nan (Response unquoted_link_page)
                      (makeRequest_send (Some ''u'') (init '''')))) = []
        \<and> error (snd (makeRequest_settle cv_nan (Response unquoted_link_page)
                       (makeRequest_send (Some ''u'') (init '''')))) = JStr connection_message"
    by simp
  with a(1,2,3) linkRegex_unquoted show ?thesis by blast
qed

end
